theory Spec2Isabelle
  imports
    Complex_Main
    "HOL-Library.Word"
    "HOL-Library.Log_Nat"
    "HOL-Library.Char_ord"
    "HOL-Library.List_Lexorder"
begin

section \<open>Machine numbers\<close>

text \<open>
  \<open>sf::Int16\<close> is a 16-bit two's complement integer.  C++ \<open>int\<close> values (sample positions,
  sample counts, loop counters) are modelled by \<open>int\<close>; every one of them is bounded by a
  clip length or by the mix-buffer size, so signed arithmetic on them is taken without
  overflow, while each conversion between integer types that the source performs is written
  out: \<open>u64\<close> is the conversion to an unsigned 64-bit integer (\<open>std::size_t\<close>,
  \<open>sf::Uint64\<close>), \<open>i32\<close> the conversion to \<open>int\<close>.
\<close>

type_synonym Int16 = "16 word"

definition u64 :: "int \<Rightarrow> int" where
  "u64 x = x mod 2 ^ 64"

definition i32 :: "int \<Rightarrow> int" where
  "i32 x = (x + 2 ^ 31) mod 2 ^ 32 - 2 ^ 31"

definition INT_MAX :: int where
  "INT_MAX = 2 ^ 31 - 1"

text \<open>Integer division of C++: the quotient is truncated towards zero.\<close>

definition int_div :: "int \<Rightarrow> int \<Rightarrow> int" where
  "int_div a b = (if (a < 0) = (b < 0) then \<bar>a\<bar> div \<bar>b\<bar> else - (\<bar>a\<bar> div \<bar>b\<bar>))"

subsection \<open>Single-precision floating point\<close>

text \<open>
  A \<open>float\<close> is modelled by the rational number it denotes.  Every floating-point operation
  of the source is the exact operation followed by \<open>f32\<close>, the rounding to the nearest
  number with a 24-bit significand, ties to even (IEEE 754 binary32, each operation rounded
  once).  The exponent range is not modelled: the magnitudes that occur in this program are
  zero or lie between \<open>2 powi (- 47)\<close> and \<open>2 powi 32\<close>, far from underflow and overflow.
\<close>

definition round_even :: "rat \<Rightarrow> int" where
  "round_even x = (let f = \<lfloor>x\<rfloor>; d = x - of_int f
     in if d < 1 / 2 then f else if 1 / 2 < d then f + 1 else if even f then f else f + 1)"

text \<open>\<open>ilog2 x\<close> is the binary exponent of a positive \<open>x\<close>: \<open>2 powi ilog2 x \<le> x < 2 powi (ilog2 x + 1)\<close>.\<close>

definition ilog2 :: "rat \<Rightarrow> int" where
  "ilog2 x = (if 1 \<le> x then bitlen \<lfloor>x\<rfloor> - 1 else - bitlen (\<lceil>1 / x\<rceil> - 1))"

definition f32 :: "rat \<Rightarrow> rat" where
  "f32 x = (if x = 0 then 0 else
     let u = 2 powi (ilog2 \<bar>x\<bar> - 23) in of_int (round_even (x / u)) * u)"

definition fadd :: "rat \<Rightarrow> rat \<Rightarrow> rat" where
  "fadd x y = f32 (x + y)"

definition fsub :: "rat \<Rightarrow> rat \<Rightarrow> rat" where
  "fsub x y = f32 (x - y)"

definition fmul :: "rat \<Rightarrow> rat \<Rightarrow> rat" where
  "fmul x y = f32 (x * y)"

definition fdiv :: "rat \<Rightarrow> rat \<Rightarrow> rat" where
  "fdiv x y = f32 (x / y)"

text \<open>Conversion of an integer to \<open>float\<close>.\<close>

definition i2f :: "int \<Rightarrow> rat" where
  "i2f n = f32 (of_int n)"

text \<open>\<open>ceilf\<close>: the result is an integer of no more significant bits than its argument.\<close>

definition ceilf :: "rat \<Rightarrow> rat" where
  "ceilf x = of_int \<lceil>x\<rceil>"

text \<open>Conversion of a \<open>float\<close> to an integer type discards the fractional part.\<close>

definition trunc :: "rat \<Rightarrow> int" where
  "trunc x = (if 0 \<le> x then \<lfloor>x\<rfloor> else \<lceil>x\<rceil>)"

section \<open>Undefined behaviour and exceptions as values\<close>

datatype error =
    OutOfBoundsRead int
  | OutOfBoundsWrite int
  | NullPointer
  | DivisionByZero
  | FloatToIntOverflow
  | LengthError

text \<open>
  Conversion of a \<open>float\<close> to \<open>sf::Int16\<close>: undefined when the truncated value is not
  representable.
\<close>

definition f2i16 :: "rat \<Rightarrow> error + Int16" where
  "f2i16 x = (let t = trunc x in
     if - 32768 \<le> t \<and> t \<le> 32767 then Inr (word_of_int t) else Inl FloatToIntOverflow)"

section \<open>Clips (\<open>sf::SoundBuffer\<close>)\<close>

text \<open>
  The part of \<open>sf::SoundBuffer\<close> the program reads: channel count and sample rate
  (\<open>unsigned int\<close>) and the array of samples.  \<open>getSamples\<close> of a buffer without samples
  is the null pointer.
\<close>

record Clip =
  channelCount :: "32 word"
  sampleRate :: "32 word"
  samples :: "Int16 list"

definition getSampleCount :: "Clip \<Rightarrow> int" where
  "getSampleCount c = int (length (samples c))"

text \<open>Reading \<open>buf[p]\<close> through a pointer into the sample array.\<close>

definition read_sample :: "Int16 list \<Rightarrow> int \<Rightarrow> error + Int16" where
  "read_sample buf p =
     (if 0 \<le> p \<and> p < int (length buf) then Inr (buf ! nat p) else Inl (OutOfBoundsRead p))"

section \<open>\<open>std::map\<close> with string keys\<close>

text \<open>
  A \<open>std::map<std::string, V>\<close> is an association list kept in ascending key order, which
  is the order of iteration and makes \<open>begin()\<close> the head.
\<close>

type_synonym 'v strmap = "(string \<times> 'v) list"

text \<open>\<open>emplace\<close>: inserts unless the key is present.\<close>

fun map_emplace :: "string \<Rightarrow> 'v \<Rightarrow> 'v strmap \<Rightarrow> 'v strmap" where
  "map_emplace k v [] = [(k, v)]"
| "map_emplace k v ((k', v') # m) =
     (if k < k' then (k, v) # (k', v') # m
      else if k = k' then (k', v') # m
      else (k', v') # map_emplace k v m)"

text \<open>\<open>m[k] = v\<close>: inserts or overwrites.\<close>

fun map_assign :: "string \<Rightarrow> 'v \<Rightarrow> 'v strmap \<Rightarrow> 'v strmap" where
  "map_assign k v [] = [(k, v)]"
| "map_assign k v ((k', v') # m) =
     (if k < k' then (k, v) # (k', v') # m
      else if k = k' then (k, v) # m
      else (k', v') # map_assign k v m)"

text \<open>Mutation of the value found under a key; nothing happens when \<open>find\<close> fails.\<close>

fun map_modify :: "string \<Rightarrow> ('v \<Rightarrow> 'v) \<Rightarrow> 'v strmap \<Rightarrow> 'v strmap" where
  "map_modify k f [] = []"
| "map_modify k f ((k', v') # m) =
     (if k = k' then (k', f v') # m else (k', v') # map_modify k f m)"

section \<open>\<open>LoopLauncher::Track\<close>\<close>

text \<open>
  The two \<open>Clip *\<close> members point at values stored in \<open>m_mapClips\<close>, whose nodes never
  move and are never erased: a pointer is modelled by the key of the node it points at,
  \<open>None\<close> being \<open>nullptr\<close>.  \<open>m_pPendingTrack\<close> is the active clip, \<open>m_pPendingClip\<close> the
  pending one.
\<close>

record Track =
  m_nFadeSamples :: int
  m_nSampleCount :: int
  m_mapClips :: "Clip strmap"
  m_pPendingTrack :: "string option"
  m_pPendingClip :: "string option"

definition Track_default :: Track where
  "Track_default = \<lparr> m_nFadeSamples = 0, m_nSampleCount = 0, m_mapClips = [],
     m_pPendingTrack = None, m_pPendingClip = None \<rparr>"

definition deref :: "Clip strmap \<Rightarrow> string option \<Rightarrow> error + Clip" where
  "deref clips p = (case p of None \<Rightarrow> Inl NullPointer
     | Some k \<Rightarrow> (case map_of clips k of None \<Rightarrow> Inl NullPointer | Some c \<Rightarrow> Inr c))"

definition GetChannelCount :: "Track \<Rightarrow> int" where
  "GetChannelCount t =
     (case m_mapClips t of [] \<Rightarrow> 1 | (k, c) # m \<Rightarrow> i32 (uint (channelCount c)))"

definition GetSampleRate :: "Track \<Rightarrow> int" where
  "GetSampleRate t =
     (case m_mapClips t of [] \<Rightarrow> 1 | (k, c) # m \<Rightarrow> i32 (uint (sampleRate c)))"

definition GetSampleCount :: "Track \<Rightarrow> int" where
  "GetSampleCount t =
     (case m_mapClips t of [] \<Rightarrow> 1 | (k, c) # m \<Rightarrow> i32 (getSampleCount c))"

text \<open>
  \<open>AddClip\<close> loads a file with \<open>sf::SoundBuffer::loadFromFile\<close>; the file system is the
  parameter \<open>fs\<close>, \<open>None\<close> for a file that does not load.  The fade length is 5 ms worth of
  samples, computed in \<open>float\<close> and truncated; it is below \<open>2 ^ 31\<close> for every 32-bit rate.
\<close>

definition AddClip :: "(string \<Rightarrow> Clip option) \<Rightarrow> string \<Rightarrow> Track \<Rightarrow> bool \<times> Track" where
  "AddClip fs fileName t =
     (case fs fileName of
        None \<Rightarrow> (False, t)
      | Some sBuf \<Rightarrow>
          let t1 = (if m_nSampleCount t = 0
                    then t\<lparr> m_nSampleCount := i32 (getSampleCount sBuf) \<rparr> else t);
              t2 = (if m_nFadeSamples t1 = 0
                    then t1\<lparr> m_nFadeSamples :=
                      trunc (fmul 5 (fdiv (i2f (uint (sampleRate sBuf))) 1000)) \<rparr>
                    else t1)
          in (True, t2\<lparr> m_mapClips := map_assign fileName sBuf (m_mapClips t2) \<rparr>))"

text \<open>The constructor from a list of file names.\<close>

definition Track_of_files :: "(string \<Rightarrow> Clip option) \<Rightarrow> string list \<Rightarrow> Track" where
  "Track_of_files fs liFileNames = foldl (\<lambda>t file. snd (AddClip fs file t)) Track_default liFileNames"

definition HasClip :: "Track \<Rightarrow> string \<Rightarrow> bool" where
  "HasClip t clipName = (map_of (m_mapClips t) clipName \<noteq> None)"

definition SetPendingTrack :: "Track \<Rightarrow> string \<Rightarrow> bool \<times> Track" where
  "SetPendingTrack t trackName =
     (case map_of (m_mapClips t) trackName of
        Some c \<Rightarrow> (True, t\<lparr> m_pPendingClip := Some trackName \<rparr>)
      | None \<Rightarrow> (False, t\<lparr> m_pPendingClip := None \<rparr>))"

subsection \<open>\<open>Track::GetAudio\<close>\<close>

definition vol_1 :: rat where
  "vol_1 = fdiv 1 2"

text \<open>\<open>*pSoundBuf * vol_1\<close>: the sample, converted to \<open>float\<close>, times the volume.\<close>

definition scaled :: "Int16 \<Rightarrow> rat" where
  "scaled s = fmul (i2f (sint s)) vol_1"

text \<open>\<open>pMixBuffer[i] += x\<close> for a \<open>float\<close> \<open>x\<close>: the sum is formed in \<open>float\<close> and converted back.\<close>

definition mix_add_float :: "Int16 list \<Rightarrow> int \<Rightarrow> rat \<Rightarrow> error + Int16 list" where
  "mix_add_float mix i x =
     (if 0 \<le> i \<and> i < int (length mix)
      then (case f2i16 (fadd (i2f (sint (mix ! nat i))) x) of
              Inl e \<Rightarrow> Inl e
            | Inr v \<Rightarrow> Inr (mix[nat i := v]))
      else Inl (OutOfBoundsWrite i))"

text \<open>\<open>pMixBuffer[i] += iVal\<close> for an \<open>sf::Int16\<close> \<open>iVal\<close>: the \<open>int\<close> sum wraps into 16 bits.\<close>

definition mix_add_int16 :: "Int16 list \<Rightarrow> int \<Rightarrow> Int16 \<Rightarrow> error + Int16 list" where
  "mix_add_int16 mix i v =
     (if 0 \<le> i \<and> i < int (length mix)
      then Inr (mix[nat i := mix ! nat i + v])
      else Inl (OutOfBoundsWrite i))"

text \<open>
  The first loop: \<open>k\<close> iterations remain, \<open>p\<close> is the position of \<open>pSoundBuf\<close> in the sample
  array, \<open>i\<close> the loop index.
\<close>

fun copy_loop :: "nat \<Rightarrow> Int16 list \<Rightarrow> int \<Rightarrow> Int16 list \<Rightarrow> int \<Rightarrow> error + Int16 list" where
  "copy_loop 0 src p mix i = Inr mix"
| "copy_loop (Suc k) src p mix i =
     (case read_sample src p of
        Inl e \<Rightarrow> Inl e
      | Inr s \<Rightarrow>
          (case mix_add_float mix i (scaled s) of
             Inl e \<Rightarrow> Inl e
           | Inr mix' \<Rightarrow> copy_loop k src (p + 1) mix' (i + 1)))"

text \<open>The fade weight \<open>a\<close> of the \<open>j\<close>-th crossfaded sample, and the value \<open>iVal\<close> before its conversion.\<close>

definition fade_weight :: "int \<Rightarrow> int \<Rightarrow> rat" where
  "fade_weight j nFadeSamples = fsub 1 (fdiv (i2f j) (i2f nFadeSamples))"

definition crossfade :: "rat \<Rightarrow> Int16 \<Rightarrow> Int16 \<Rightarrow> rat" where
  "crossfade a val nextSample =
     ceilf (fadd (fmul a (i2f (sint val))) (fmul (fsub 1 a) (i2f (sint nextSample))))"

text \<open>
  The second loop, entered with \<open>j = 0\<close>.  It runs only when \<open>lastSample < nSamplesDesired\<close>,
  that is when \<open>m_nFadeSamples\<close> is positive, so the division never has a zero divisor.
\<close>

fun fade_loop ::
  "nat \<Rightarrow> int \<Rightarrow> Int16 \<Rightarrow> Int16 list \<Rightarrow> int \<Rightarrow> Int16 list \<Rightarrow> int \<Rightarrow> int \<Rightarrow> error + Int16 list" where
  "fade_loop 0 nFade nextSample src p mix i j = Inr mix"
| "fade_loop (Suc k) nFade nextSample src p mix i j =
     (let a = fade_weight (j + 1) nFade in
      case read_sample src p of
        Inl e \<Rightarrow> Inl e
      | Inr s \<Rightarrow>
          (case f2i16 (scaled s) of
             Inl e \<Rightarrow> Inl e
           | Inr val \<Rightarrow>
               (case f2i16 (crossfade a val nextSample) of
                  Inl e \<Rightarrow> Inl e
                | Inr iVal \<Rightarrow>
                    (case mix_add_int16 mix i iVal of
                       Inl e \<Rightarrow> Inl e
                     | Inr mix' \<Rightarrow> fade_loop k nFade nextSample src (p + 1) mix' (i + 1) (j + 1)))))"

text \<open>\<open>nextSample\<close>: the first sample of the pending clip, 0 without one.\<close>

definition next_sample :: "Track \<Rightarrow> error + Int16" where
  "next_sample t =
     (case m_pPendingClip t of
        None \<Rightarrow> Inr 0
      | Some k \<Rightarrow>
          (case deref (m_mapClips t) (Some k) of
             Inl e \<Rightarrow> Inl e
           | Inr c \<Rightarrow> (case samples c of [] \<Rightarrow> Inl NullPointer | s # ss \<Rightarrow> Inr s)))"

text \<open>
  The offset of the window in the active clip, and \<open>bLoop\<close>: whether the window reaches
  the end of the clip.  The sample count is a \<open>sf::Uint64\<close>, so both the remainder and the
  comparison are unsigned.
\<close>

definition sampleOffset_of :: "Clip \<Rightarrow> int \<Rightarrow> int" where
  "sampleOffset_of soundBuf nCurSamplePos = i32 (u64 nCurSamplePos mod getSampleCount soundBuf)"

definition crosses_end :: "Clip \<Rightarrow> int \<Rightarrow> int \<Rightarrow> bool" where
  "crosses_end soundBuf nSamplesDesired nCurSamplePos =
     (getSampleCount soundBuf \<le> u64 (sampleOffset_of soundBuf nCurSamplePos + nSamplesDesired))"

text \<open>The body of \<open>GetAudio\<close> once the active clip is known to be set.\<close>

definition GetAudio_active :: "Track \<Rightarrow> Int16 list \<Rightarrow> int \<Rightarrow> int \<Rightarrow> error + (bool \<times> Track \<times> Int16 list option)" where
  "GetAudio_active t mix nSamplesDesired nCurSamplePos =
     (case deref (m_mapClips t) (m_pPendingTrack t) of
        Inl e \<Rightarrow> Inl e
      | Inr soundBuf \<Rightarrow>
          if getSampleCount soundBuf = 0 then Inl DivisionByZero
          else
            let sampleOffset = sampleOffset_of soundBuf nCurSamplePos;
                bLoop = crosses_end soundBuf nSamplesDesired nCurSamplePos;
                lastSample = (if bLoop then nSamplesDesired - m_nFadeSamples t else nSamplesDesired)
            in case copy_loop (nat lastSample) (samples soundBuf) sampleOffset mix 0 of
                 Inl e \<Rightarrow> Inl e
               | Inr mix1 \<Rightarrow>
                   if bLoop then
                     (case next_sample t of
                        Inl e \<Rightarrow> Inl e
                      | Inr nextSample \<Rightarrow>
                          (case fade_loop (nat (nSamplesDesired - lastSample)) (m_nFadeSamples t)
                                  nextSample (samples soundBuf) (sampleOffset + max 0 lastSample)
                                  mix1 lastSample 0 of
                             Inl e \<Rightarrow> Inl e
                           | Inr mix2 \<Rightarrow>
                               Inr (True, t\<lparr> m_pPendingTrack := m_pPendingClip t \<rparr>, Some mix2)))
                   else Inr (True, t, Some mix1))"

text \<open>
  \<open>GetAudio\<close>: the mix buffer is a pointer argument, \<open>None\<close> for \<open>nullptr\<close>; the result is the
  returned flag, the track and the mix buffer after the call.
\<close>

definition GetAudio :: "Track \<Rightarrow> Int16 list option \<Rightarrow> int \<Rightarrow> int \<Rightarrow> error + (bool \<times> Track \<times> Int16 list option)" where
  "GetAudio t pMixBuffer nSamplesDesired nCurSamplePos =
     (case pMixBuffer of
        None \<Rightarrow> Inr (False, t, None)
      | Some mix \<Rightarrow>
          if m_pPendingTrack t = None \<and> m_pPendingClip t \<noteq> None
          then GetAudio_active (t\<lparr> m_pPendingTrack := m_pPendingClip t \<rparr>) mix nSamplesDesired nCurSamplePos
          else if m_pPendingTrack t = None then Inr (False, t, Some mix)
          else GetAudio_active t mix nSamplesDesired nCurSamplePos)"

section \<open>\<open>LoopLauncher\<close>\<close>

record LoopLauncher =
  m_nLastSamplePos :: int
  m_nMaxSampleCount :: int
  m_mapTracks :: "Track strmap"
  m_vMixBuffer :: "Int16 list"
  m_bNeedsAudio :: bool
  m_mapPendingTracks :: "string strmap"

definition LoopLauncher_default :: LoopLauncher where
  "LoopLauncher_default = \<lparr> m_nLastSamplePos = 0, m_nMaxSampleCount = 0, m_mapTracks = [],
     m_vMixBuffer = [], m_bNeedsAudio = True, m_mapPendingTracks = [] \<rparr>"

text \<open>
  \<open>std::vector::resize\<close> with an \<open>int\<close> argument: a negative size converts to a
  \<open>std::size_t\<close> beyond \<open>max_size()\<close> and the call throws; otherwise the vector is cut or
  padded with zeros.
\<close>

definition resize :: "int \<Rightarrow> Int16 list \<Rightarrow> error + Int16 list" where
  "resize n v = (if n < 0 then Inl LengthError
     else Inr (take (nat n) v @ replicate (nat n - length v) 0))"

text \<open>The first loop of \<open>Initialize\<close>: one \<open>emplace\<close> of a freshly constructed track per entry.\<close>

definition emplace_tracks ::
  "(string \<Rightarrow> Clip option) \<Rightarrow> string list strmap \<Rightarrow> Track strmap \<Rightarrow> Track strmap" where
  "emplace_tracks fs mapTracks m =
     foldl (\<lambda>m (name, files). map_emplace name (Track_of_files fs files) m) m mapTracks"

text \<open>The second loop of \<open>Initialize\<close>: largest and smallest sample count of the tracks.\<close>

definition max_sample_count :: "int \<Rightarrow> Track strmap \<Rightarrow> int" where
  "max_sample_count n0 tracks = foldl (\<lambda>a (name, t). max a (GetSampleCount t)) n0 tracks"

definition min_sample_count :: "Track strmap \<Rightarrow> int" where
  "min_sample_count tracks = foldl (\<lambda>a (name, t). min a (GetSampleCount t)) INT_MAX tracks"

text \<open>
  \<open>Initialize\<close>.  Its last statement hands channel count and sample rate of the first track
  to \<open>sf::SoundStream::initialize\<close>, which configures the stream of the playback library and
  changes no member of \<open>LoopLauncher\<close>.
\<close>

definition Initialize ::
  "(string \<Rightarrow> Clip option) \<Rightarrow> LoopLauncher \<Rightarrow> string list strmap \<Rightarrow> error + (bool \<times> LoopLauncher)" where
  "Initialize fs ll mapTracks =
     (let ll1 = ll\<lparr> m_mapTracks := emplace_tracks fs mapTracks (m_mapTracks ll) \<rparr> in
      if m_mapTracks ll1 = [] then Inr (False, ll1)
      else
        let nMax = max_sample_count (m_nMaxSampleCount ll1) (m_mapTracks ll1);
            nMinSampleCount = min_sample_count (m_mapTracks ll1)
        in case resize (int_div nMinSampleCount 64) (m_vMixBuffer ll1) of
             Inl e \<Rightarrow> Inl e
           | Inr v \<Rightarrow> Inr (True, ll1\<lparr> m_nMaxSampleCount := nMax, m_vMixBuffer := v \<rparr>))"

definition GetTrack :: "LoopLauncher \<Rightarrow> string \<Rightarrow> Track option" where
  "GetTrack ll trackName = map_of (m_mapTracks ll) trackName"

definition AddTrack ::
  "(string \<Rightarrow> Clip option) \<Rightarrow> LoopLauncher \<Rightarrow> string \<Rightarrow> string list \<Rightarrow> bool \<times> LoopLauncher" where
  "AddTrack fs ll trackName liFileNames =
     (True, ll\<lparr> m_mapTracks := map_emplace trackName (Track_of_files fs liFileNames) (m_mapTracks ll) \<rparr>)"

text \<open>The inner loop of \<open>UpdatePendingClips\<close>: the first track, in key order, that has the clip.\<close>

fun find_track :: "Track strmap \<Rightarrow> string \<Rightarrow> string option" where
  "find_track [] clip = None"
| "find_track ((name, t) # m) clip = (if HasClip t clip then Some name else find_track m clip)"

definition UpdatePendingClips :: "LoopLauncher \<Rightarrow> string list \<Rightarrow> bool \<times> LoopLauncher" where
  "UpdatePendingClips ll liNewActiveClips =
     (let ll' = foldl (\<lambda>l clip.
                  case find_track (m_mapTracks l) clip of
                    None \<Rightarrow> l
                  | Some name \<Rightarrow> l\<lparr> m_mapPendingTracks := map_assign name clip (m_mapPendingTracks l),
                                   m_bNeedsAudio := False \<rparr>)
                ll liNewActiveClips
      in (m_bNeedsAudio ll' = False, ll'))"

definition NeedsAudio :: "LoopLauncher \<Rightarrow> bool" where
  "NeedsAudio ll = m_bNeedsAudio ll"

definition postPendingTracks :: "LoopLauncher \<Rightarrow> LoopLauncher" where
  "postPendingTracks ll =
     (let silenced = map (\<lambda>(name, t). (name, snd (SetPendingTrack t ''silence''))) (m_mapTracks ll);
          posted = foldl (\<lambda>m (name, clip). map_modify name (\<lambda>t. snd (SetPendingTrack t clip)) m)
                     silenced (m_mapPendingTracks ll)
      in ll\<lparr> m_mapTracks := posted, m_mapPendingTracks := [], m_bNeedsAudio := True \<rparr>)"

text \<open>The loop of \<open>onGetData\<close> over the tracks; the flag \<open>GetAudio\<close> returns is dropped.\<close>

fun render_tracks :: "Track strmap \<Rightarrow> Int16 list \<Rightarrow> int \<Rightarrow> int \<Rightarrow> error + (Track strmap \<times> Int16 list)" where
  "render_tracks [] mix n pos = Inr ([], mix)"
| "render_tracks ((name, t) # m) mix n pos =
     (case GetAudio t (Some mix) n pos of
        Inl e \<Rightarrow> Inl e
      | Inr (ok, t', pMix) \<Rightarrow>
          (case render_tracks m (case pMix of None \<Rightarrow> mix | Some mix' \<Rightarrow> mix') n pos of
             Inl e \<Rightarrow> Inl e
           | Inr (m', mix'') \<Rightarrow> Inr ((name, t') # m', mix'')))"

text \<open>
  \<open>onGetData\<close>: the chunk handed to the stream is the mix buffer of the resulting state.
  \<open>c.sampleCount\<close> is a \<open>std::size_t\<close>, so the test for the loop boundary is unsigned.
\<close>

definition onGetData :: "LoopLauncher \<Rightarrow> error + (bool \<times> LoopLauncher)" where
  "onGetData ll =
     (if m_vMixBuffer ll = [] then Inr (False, ll)
      else
        let zeroed = replicate (length (m_vMixBuffer ll)) (0 :: Int16);
            sampleCount = int (length zeroed);
            ll0 = ll\<lparr> m_vMixBuffer := zeroed \<rparr>;
            bLoop = (u64 (m_nMaxSampleCount ll0) \<le> u64 (sampleCount + u64 (m_nLastSamplePos ll0)));
            ll1 = (if bLoop then postPendingTracks ll0 else ll0)
        in case render_tracks (m_mapTracks ll1) zeroed (i32 sampleCount) (m_nLastSamplePos ll1) of
             Inl e \<Rightarrow> Inl e
           | Inr (tracks, mix) \<Rightarrow>
               let pos = i32 (u64 (u64 (m_nLastSamplePos ll1) + sampleCount))
               in Inr (True, ll1\<lparr> m_mapTracks := tracks, m_vMixBuffer := mix,
                    m_nLastSamplePos := (if m_nMaxSampleCount ll1 \<le> pos then 0 else pos) \<rparr>))"

text \<open>\<open>Play\<close> flushes the staged requests; starting the stream is the playback library's part.\<close>

definition Play :: "LoopLauncher \<Rightarrow> LoopLauncher" where
  "Play ll = postPendingTracks ll"

section \<open>Values written by a render call\<close>

text \<open>
  The values a call of \<open>GetAudio\<close> leaves in the mix buffer when no conversion overflows:
  \<open>mixed m s\<close> for \<open>m += s * vol_1\<close> in the first loop, \<open>half s\<close> for \<open>val\<close> and
  \<open>faded F j s nextSample\<close> for \<open>iVal\<close> in iteration \<open>j\<close> of the second loop.
\<close>

definition mixed :: "Int16 \<Rightarrow> Int16 \<Rightarrow> Int16" where
  "mixed m s = word_of_int (trunc (of_int (sint m) + of_int (sint s) / 2))"

definition half :: "Int16 \<Rightarrow> Int16" where
  "half s = word_of_int (trunc (of_int (sint s) / 2))"

definition faded :: "int \<Rightarrow> int \<Rightarrow> Int16 \<Rightarrow> Int16 \<Rightarrow> Int16" where
  "faded nFade j s nextSample =
     word_of_int (trunc (crossfade (fade_weight j nFade) (half s) nextSample))"

text \<open>Whether \<open>m += s * vol_1\<close> stays within \<open>sf::Int16\<close>.\<close>

definition fits :: "Int16 \<Rightarrow> Int16 \<Rightarrow> bool" where
  "fits m s = (let v = trunc (of_int (sint m) + of_int (sint s) / 2) in - 32768 \<le> v \<and> v \<le> 32767)"

definition clamp16 :: "int \<Rightarrow> int" where
  "clamp16 x = max (- 32768) (min 32767 x)"

text \<open>
  The mix buffer after a call for \<open>n\<close> samples at offset \<open>off\<close> of the array \<open>src\<close>:
  \<open>rendered_inside\<close> when the window stays inside the clip, \<open>rendered_wrap\<close> when it ends
  at the end of the clip and the last \<open>nFade\<close> samples are crossfaded.
\<close>

definition rendered_inside :: "Int16 list \<Rightarrow> Int16 list \<Rightarrow> nat \<Rightarrow> int \<Rightarrow> Int16 list" where
  "rendered_inside mix src off n =
     map (\<lambda>x. if x < nat n then mixed (mix ! x) (src ! (off + x)) else mix ! x) [0..<length mix]"

definition rendered_wrap ::
  "Int16 list \<Rightarrow> Int16 list \<Rightarrow> nat \<Rightarrow> int \<Rightarrow> int \<Rightarrow> Int16 \<Rightarrow> Int16 list" where
  "rendered_wrap mix src off n nFade nextSample =
     map (\<lambda>x. if x < nat (n - nFade) then mixed (mix ! x) (src ! (off + x))
              else if x < nat n
              then mix ! x + faded nFade (1 + int (x - nat (n - nFade))) (src ! (off + x)) nextSample
              else mix ! x)
       [0..<length mix]"

text \<open>
  The mix buffer after a whole clip \<open>src\<close> has been rendered by one call into a zeroed
  buffer, no clip pending.
\<close>

definition rendered_full :: "Int16 list \<Rightarrow> int \<Rightarrow> Int16 list" where
  "rendered_full src nFade =
     map (\<lambda>x. if x < nat (int (length src) - nFade) then half (src ! x)
              else faded nFade (1 + int (x - nat (int (length src) - nFade))) (src ! x) 0)
       [0..<length src]"

section \<open>Concrete inputs\<close>

text \<open>
  A file system with three clips of four samples each, recorded at 400 Hz (fade length 2),
  at 800 Hz (fade length 4) and a silent one, and the tracks obtained from them through
  \<open>AddClip\<close> and \<open>SetPendingTrack\<close>.
\<close>

definition clip_400 :: Clip where
  "clip_400 = \<lparr> channelCount = 1, sampleRate = 400, samples = [100, - 201, 302, 400] \<rparr>"

definition clip_800 :: Clip where
  "clip_800 = \<lparr> channelCount = 1, sampleRate = 800, samples = [100, 200, 300, 400] \<rparr>"

definition clip_silence :: Clip where
  "clip_silence = \<lparr> channelCount = 1, sampleRate = 400, samples = [0, 0, 0, 0] \<rparr>"

definition demo_fs :: "string \<Rightarrow> Clip option" where
  "demo_fs = map_of [(''a'', clip_400), (''b'', clip_800), (''silence'', clip_silence)]"

definition track_400 :: Track where
  "track_400 = snd (SetPendingTrack (snd (AddClip demo_fs ''a'' Track_default)) ''a'')"

definition track_800 :: Track where
  "track_800 = snd (SetPendingTrack (snd (AddClip demo_fs ''b'' Track_default)) ''b'')"

text \<open>The same tracks once a first render call has made the pending clip the active one.\<close>

definition playing_400 :: Track where
  "playing_400 = \<lparr> m_nFadeSamples = 2, m_nSampleCount = 4, m_mapClips = [(''a'', clip_400)],
     m_pPendingTrack = Some ''a'', m_pPendingClip = Some ''a'' \<rparr>"

definition playing_800 :: Track where
  "playing_800 = \<lparr> m_nFadeSamples = 4, m_nSampleCount = 4, m_mapClips = [(''b'', clip_800)],
     m_pPendingTrack = Some ''b'', m_pPendingClip = Some ''b'' \<rparr>"

text \<open>The first track after a loop wrap at which no clip was requested for it.\<close>

definition solo_400 :: Track where
  "solo_400 = snd (SetPendingTrack playing_400 ''silence'')"

text \<open>
  A track with a second clip, named \<open>silence\<close>, while it plays clip \<open>a\<close>, and a launcher
  that holds it with no request staged.
\<close>

definition playing_two :: Track where
  "playing_two = \<lparr> m_nFadeSamples = 2, m_nSampleCount = 4,
     m_mapClips = [(''a'', clip_400), (''silence'', clip_silence)],
     m_pPendingTrack = Some ''a'', m_pPendingClip = Some ''a'' \<rparr>"

definition launcher_two :: LoopLauncher where
  "launcher_two = LoopLauncher_default\<lparr> m_mapTracks := [(''drums'', playing_two)] \<rparr>"

text \<open>
  The scenario of two tracks, \<open>drums\<close> with clips \<open>a\<close> and \<open>b\<close> and \<open>bass\<close> with clip
  \<open>x\<close>, each clip of 44100 samples at 44100 Hz.
\<close>

definition clip_cd :: Clip where
  "clip_cd = \<lparr> channelCount = 2, sampleRate = 44100, samples = replicate 44100 0 \<rparr>"

definition cd_fs :: "string \<Rightarrow> Clip option" where
  "cd_fs = map_of [(''a'', clip_cd), (''b'', clip_cd), (''x'', clip_cd)]"

definition cd_tracks :: "string list strmap" where
  "cd_tracks = [(''bass'', [''x'']), (''drums'', [''a'', ''b''])]"

text \<open>A track set with one track none of whose files load.\<close>

definition ghost_tracks :: "string list strmap" where
  "ghost_tracks = [(''drums'', [''a'']), (''ghost'', [''missing''])]"

definition launcher_demo :: LoopLauncher where
  "launcher_demo = snd (AddTrack demo_fs LoopLauncher_default ''drums'' [''a''])"

text \<open>
  Three tracks, \<open>bass\<close>, \<open>drums\<close> and \<open>keys\<close>, with one clip each; every clip has 64
  samples at full positive level, recorded at 400 Hz (fade length 2, mix buffer of one
  sample).  \<open>loud_launcher\<close> is the launcher after \<open>Initialize\<close>, \<open>playing_loud\<close> the track
  \<open>keys\<close> while it plays its clip.
\<close>

definition clip_loud :: Clip where
  "clip_loud = \<lparr> channelCount = 1, sampleRate = 400, samples = replicate 64 32767 \<rparr>"

definition loud_fs :: "string \<Rightarrow> Clip option" where
  "loud_fs = map_of [(''a'', clip_loud), (''b'', clip_loud), (''c'', clip_loud)]"

definition loud_tracks :: "string list strmap" where
  "loud_tracks = [(''bass'', [''a'']), (''drums'', [''b'']), (''keys'', [''c''])]"

definition loud_track :: "string \<Rightarrow> Track" where
  "loud_track k = \<lparr> m_nFadeSamples = 2, m_nSampleCount = 64, m_mapClips = [(k, clip_loud)],
     m_pPendingTrack = None, m_pPendingClip = None \<rparr>"

definition loud_launcher :: LoopLauncher where
  "loud_launcher = \<lparr> m_nLastSamplePos = 0, m_nMaxSampleCount = 64,
     m_mapTracks = [(''bass'', loud_track ''a''), (''drums'', loud_track ''b''), (''keys'', loud_track ''c'')],
     m_vMixBuffer = [0], m_bNeedsAudio = True, m_mapPendingTracks = [] \<rparr>"

definition playing_loud :: Track where
  "playing_loud = (loud_track ''c'')\<lparr> m_pPendingTrack := Some ''c'', m_pPendingClip := Some ''c'' \<rparr>"

section \<open>Rounding to single precision\<close>

lemma round_even_of_int: "round_even (of_int k) = k"
  by (simp add: round_even_def)

lemma round_even_floor_le: "\<lfloor>x\<rfloor> \<le> round_even x"
  by (simp add: round_even_def Let_def)

lemma round_even_le_ceiling: "round_even x \<le> \<lceil>x\<rceil>"
  unfolding round_even_def Let_def
  by (auto simp: ceiling_altdef)

lemma round_even_mono:
  assumes "x \<le> y"
  shows "round_even x \<le> round_even y"
proof (cases "\<lfloor>x\<rfloor> = \<lfloor>y\<rfloor>")
  case True
  then show ?thesis
    using assms unfolding round_even_def Let_def by auto
next
  case False
  with assms have "\<lfloor>x\<rfloor> < \<lfloor>y\<rfloor>"
    using floor_mono [of x y] by linarith
  then have "\<lfloor>x\<rfloor> + 1 \<le> \<lfloor>y\<rfloor>" by simp
  moreover have "round_even x \<le> \<lfloor>x\<rfloor> + 1"
    unfolding round_even_def Let_def by auto
  ultimately show ?thesis
    using round_even_floor_le [of y] by linarith
qed

lemma round_even_minus: "round_even (- x) = - round_even x"
proof (cases "x \<in> \<int>")
  case True
  then obtain k where "x = of_int k" by (auto elim: Ints_cases)
  then show ?thesis
    using round_even_of_int [of "- k"] round_even_of_int [of k] by simp
next
  case False
  then have fl: "\<lfloor>- x\<rfloor> = - \<lfloor>x\<rfloor> - 1"
    using floor_unique [of "- \<lfloor>x\<rfloor> - 1" "- x"] floor_correct [of x]
    by (auto simp: Ints_def less_le) 
  show ?thesis
    unfolding round_even_def Let_def fl
    by (auto simp: algebra_simps)
qed

lemma ilog2_bounds:
  assumes "0 < x"
  shows "2 powi (ilog2 x) \<le> x" and "x < 2 powi (ilog2 x + 1)"
proof -
  have "2 powi (ilog2 x) \<le> x \<and> x < 2 powi (ilog2 x + 1)"
  proof (cases "1 \<le> x")
    case True
    define n where "n = \<lfloor>x\<rfloor>"
    have n: "1 \<le> n" using True by (simp add: n_def le_floor_iff)
    then have b: "2 ^ nat (bitlen n - 1) \<le> n" "n < 2 ^ nat (bitlen n)"
      using bitlen_bounds [of n] by auto
    have b1: "1 \<le> bitlen n"
      using n by (auto simp: bitlen_alt_def)
    have e: "ilog2 x = bitlen n - 1"
      using True by (simp add: ilog2_def n_def)
    have "(2::rat) powi (bitlen n - 1) = of_int (2 ^ nat (bitlen n - 1))"
      using b1 by (simp add: power_int_def)
    also have "\<dots> \<le> of_int n" using b(1) by (simp only: of_int_le_iff)
    also have "\<dots> \<le> x" by (simp add: n_def)
    finally have lo: "2 powi (ilog2 x) \<le> x" by (simp add: e)
    have "x < of_int (n + 1)" using floor_correct [of x] by (simp add: n_def)
    also have "\<dots> \<le> of_int (2 ^ nat (bitlen n))"
    proof -
      have "n + 1 \<le> 2 ^ nat (bitlen n)" using b(2) by simp
      then show ?thesis by (simp only: of_int_le_iff)
    qed
    also have "\<dots> = (2::rat) powi (bitlen n)"
      using b1 by (simp add: power_int_def)
    finally have "x < 2 powi (ilog2 x + 1)" by (simp add: e)
    with lo show ?thesis by simp
  next
    case False
    define y where "y = 1 / x"
    define m where "m = \<lceil>y\<rceil> - 1"
    have y: "1 < y" using False assms by (simp add: y_def)
    then have m: "1 \<le> m" by (simp add: m_def less_ceiling_iff)
    then have b: "2 ^ nat (bitlen m - 1) \<le> m" "m < 2 ^ nat (bitlen m)"
      using bitlen_bounds [of m] by auto
    have b1: "1 \<le> bitlen m"
      using m by (auto simp: bitlen_alt_def)
    have e: "ilog2 x = - bitlen m"
      using False by (simp add: ilog2_def m_def y_def)
    have "y \<le> of_int (m + 1)" using ceiling_correct [of y] by (simp add: m_def)
    also have "\<dots> \<le> of_int (2 ^ nat (bitlen m))"
    proof -
      have "m + 1 \<le> 2 ^ nat (bitlen m)" using b(2) by simp
      then show ?thesis by (simp only: of_int_le_iff)
    qed
    also have "\<dots> = (2::rat) ^ nat (bitlen m)" by simp
    finally have "y \<le> 2 ^ nat (bitlen m)" .
    then have "1 / 2 ^ nat (bitlen m) \<le> x"
      using assms by (simp add: y_def field_simps)
    moreover have "(2::rat) powi (- bitlen m) = 1 / 2 ^ nat (bitlen m)"
      using b1 by (simp add: power_int_def field_simps)
    ultimately have lo: "2 powi (ilog2 x) \<le> x" by (simp add: e)
    have "of_int (2 ^ nat (bitlen m - 1)) \<le> (of_int m :: rat)"
      using b(1) by (simp only: of_int_le_iff)
    also have "(of_int m :: rat) < y" using ceiling_correct [of y] by (simp add: m_def)
    finally have "2 ^ nat (bitlen m - 1) < y" by simp
    then have "x < 1 / 2 ^ nat (bitlen m - 1)"
      using assms by (simp add: y_def field_simps)
    moreover have "(2::rat) powi (- bitlen m + 1) = 1 / 2 ^ nat (bitlen m - 1)"
      using b1 by (simp add: power_int_def field_simps)
    ultimately have "x < 2 powi (ilog2 x + 1)" by (simp add: e)
    with lo show ?thesis by simp
  qed
  then show "2 powi (ilog2 x) \<le> x" and "x < 2 powi (ilog2 x + 1)" by simp_all
qed


lemma f32_zero: "f32 0 = 0"
  by (simp add: f32_def)

lemma f32_minus: "f32 (- x) = - f32 x"
proof (cases "x = 0")
  case True
  then show ?thesis by (simp add: f32_def)
next
  case False
  then show ?thesis
    using round_even_minus [of "x / 2 powi (ilog2 \<bar>x\<bar> - 23)"]
    by (simp add: f32_def Let_def)
qed

lemma two_powi_split: "(2::rat) powi e = 2 ^ 23 * 2 powi (e - 23)"
  using power_int_add [of "2::rat" 23 "e - 23"] by simp

lemma two_powi_Suc: "(2::rat) powi (e + 1) = 2 ^ 24 * 2 powi (e - 23)"
  using power_int_add [of "2::rat" 24 "e - 23"] by (simp add: add.commute)

lemma f32_pos_bounds:
  assumes "0 < x"
  shows "2 powi (ilog2 x) \<le> f32 x" and "f32 x \<le> 2 powi (ilog2 x + 1)"
proof -
  define u :: rat where "u = 2 powi (ilog2 x - 23)"
  have u: "0 < u" by (simp add: u_def)
  have fx: "f32 x = of_int (round_even (x / u)) * u"
    using assms by (simp add: f32_def Let_def u_def)
  have lo: "2 ^ 23 * u \<le> x"
    using ilog2_bounds(1) [OF assms] two_powi_split [of "ilog2 x"] by (simp add: u_def)
  have hi: "x < 2 ^ 24 * u"
    using ilog2_bounds(2) [OF assms] two_powi_Suc [of "ilog2 x"] by (simp add: u_def)
  have "of_int (2 ^ 23) \<le> x / u"
    using lo u by (simp add: field_simps)
  then have "round_even (of_int (2 ^ 23)) \<le> round_even (x / u)"
    by (rule round_even_mono)
  then have r1: "2 ^ 23 \<le> round_even (x / u)"
    by (simp only: round_even_of_int)
  have "x / u \<le> of_int (2 ^ 24)"
    using hi u by (simp add: field_simps)
  then have "round_even (x / u) \<le> round_even (of_int (2 ^ 24))"
    by (rule round_even_mono)
  then have r2: "round_even (x / u) \<le> 2 ^ 24"
    by (simp only: round_even_of_int)
  have "(2 ^ 23 :: rat) \<le> of_int (round_even (x / u))"
    using r1 of_int_le_iff [where ?'a = rat, of "2 ^ 23" "round_even (x / u)"] by simp
  then have "2 ^ 23 * u \<le> of_int (round_even (x / u)) * u"
    using u by (simp only: mult_le_cancel_right_pos)
  then show "2 powi (ilog2 x) \<le> f32 x"
    using two_powi_split [of "ilog2 x"] by (simp add: fx u_def)
  have "(of_int (round_even (x / u)) :: rat) \<le> 2 ^ 24"
    using r2 of_int_le_iff [where ?'a = rat, of "round_even (x / u)" "2 ^ 24"] by simp
  then have "of_int (round_even (x / u)) * u \<le> 2 ^ 24 * u"
    using u by (simp only: mult_le_cancel_right_pos)
  then show "f32 x \<le> 2 powi (ilog2 x + 1)"
    using two_powi_Suc [of "ilog2 x"] by (simp add: fx u_def)
qed

lemma f32_pos: "0 < x \<Longrightarrow> 0 < f32 x"
  using f32_pos_bounds(1) [of x] zero_less_power_int [of "2::rat" "ilog2 x"] by linarith

lemma f32_mono_pos:
  assumes "0 < x" and "x \<le> y"
  shows "f32 x \<le> f32 y"
proof -
  have y: "0 < y" using assms by simp
  have "(2::rat) powi (ilog2 x) < 2 powi (ilog2 y + 1)"
    using ilog2_bounds(1) [OF assms(1)] ilog2_bounds(2) [OF y] assms(2) by linarith
  then have le: "ilog2 x \<le> ilog2 y"
    using power_int_increasing [of "ilog2 y + 1" "ilog2 x" "2::rat"] by (cases "ilog2 x \<le> ilog2 y") auto
  show ?thesis
  proof (cases "ilog2 x = ilog2 y")
    case True
    define u :: rat where "u = 2 powi (ilog2 y - 23)"
    have u: "0 < u" by (simp add: u_def)
    have "x / u \<le> y / u" using assms(2) u by (simp add: divide_right_mono)
    then have "round_even (x / u) \<le> round_even (y / u)" by (rule round_even_mono)
    then have "(of_int (round_even (x / u)) :: rat) * u \<le> of_int (round_even (y / u)) * u"
      using u by simp
    then show ?thesis
      using assms(1) y True by (simp add: f32_def Let_def u_def)
  next
    case False
    with le have "ilog2 x + 1 \<le> ilog2 y" by simp
    then have "(2::rat) powi (ilog2 x + 1) \<le> 2 powi (ilog2 y)"
      by (rule power_int_increasing) simp
    then show ?thesis
      using f32_pos_bounds(2) [OF assms(1)] f32_pos_bounds(1) [OF y] by linarith
  qed
qed

lemma f32_mono:
  assumes "x \<le> y"
  shows "f32 x \<le> f32 y"
proof -
  consider "0 < x" | "x \<le> 0" "0 \<le> y" | "y < 0" by linarith
  then show ?thesis
  proof cases
    case 1
    then show ?thesis using assms by (rule f32_mono_pos)
  next
    case 2
    have "f32 x \<le> 0"
      using f32_pos [of "- x"] 2(1) by (cases "x = 0") (simp_all add: f32_zero f32_minus)
    moreover have "0 \<le> f32 y"
      using f32_pos [of y] 2(2) by (cases "y = 0") (simp_all add: f32_zero)
    ultimately show ?thesis by simp
  next
    case 3
    then have "f32 (- y) \<le> f32 (- x)"
      using assms by (intro f32_mono_pos) simp_all
    then show ?thesis by (simp add: f32_minus)
  qed
qed

lemma f32_exact:
  assumes "\<bar>k\<bar> < 2 ^ 24"
  shows "f32 (of_int k * 2 powi e) = of_int k * 2 powi e"
proof (cases "k = 0")
  case True
  then show ?thesis by (simp add: f32_zero)
next
  case False
  define x :: rat where "x = of_int k * 2 powi e"
  define l where "l = ilog2 \<bar>x\<bar>"
  have x0: "x \<noteq> 0" using False by (simp add: x_def)
  then have ax: "0 < \<bar>x\<bar>" by simp
  have absx: "\<bar>x\<bar> = of_int \<bar>k\<bar> * 2 powi e"
    by (simp add: x_def abs_mult)
  have "(of_int \<bar>k\<bar> :: rat) < of_int (2 ^ 24)"
    using assms by (simp only: of_int_less_iff)
  then have "\<bar>x\<bar> < 2 ^ 24 * 2 powi e"
    by (simp add: absx)
  also have "\<dots> = 2 powi (24 + e)"
    using power_int_add [of "2::rat" 24 e] by simp
  finally have "(2::rat) powi l < 2 powi (24 + e)"
    using ilog2_bounds(1) [OF ax] by (simp add: l_def)
  then have "l < 24 + e"
    using power_int_increasing [of "24 + e" l "2::rat"] by (cases "l < 24 + e") auto
  then have d: "0 \<le> e - (l - 23)" by simp
  define d where "d = nat (e - (l - 23))"
  have split: "(2::rat) powi e = 2 ^ d * 2 powi (l - 23)"
    using power_int_add [of "2::rat" "int d" "l - 23"] d by (simp add: d_def del: power_int_of_nat add: power_int_of_nat [symmetric])
  have "x / 2 powi (l - 23) = of_int (k * 2 ^ d)"
    by (simp add: x_def split)
  then have "round_even (x / 2 powi (l - 23)) = k * 2 ^ d"
    by (simp only: round_even_of_int)
  then have "f32 x = of_int (k * 2 ^ d) * 2 powi (l - 23)"
    using x0 by (simp add: f32_def Let_def l_def)
  also have "\<dots> = x"
    by (simp add: x_def split)
  finally show ?thesis by (simp add: x_def)
qed

lemma f32_of_int: "\<bar>k\<bar> < 2 ^ 24 \<Longrightarrow> f32 (of_int k) = of_int k"
  using f32_exact [of k 0] by simp

lemma f32_half_int: "\<bar>k\<bar> < 2 ^ 24 \<Longrightarrow> f32 (of_int k / 2) = of_int k / 2"
  using f32_exact [of k "- 1"] by (simp add: power_int_minus)

lemma ilog2_unique:
  assumes "0 < x" and "2 powi e \<le> x" and "x < 2 powi (e + 1)"
  shows "ilog2 x = e"
proof -
  have "(2::rat) powi (ilog2 x) < 2 powi (e + 1)"
    using ilog2_bounds(1) [OF assms(1)] assms(3) by linarith
  then have a: "ilog2 x < e + 1"
    using power_int_increasing [of "e + 1" "ilog2 x" "2::rat"] by (cases "ilog2 x < e + 1") auto
  have "(2::rat) powi e < 2 powi (ilog2 x + 1)"
    using ilog2_bounds(2) [OF assms(1)] assms(2) by linarith
  then have "e < ilog2 x + 1"
    using power_int_increasing [of "ilog2 x + 1" e "2::rat"] by (cases "e < ilog2 x + 1") auto
  with a show ?thesis by simp
qed

lemma round_even_error: "\<bar>of_int (round_even x) - x\<bar> \<le> 1 / 2"
proof -
  have "of_int \<lfloor>x\<rfloor> \<le> x" "x < of_int \<lfloor>x\<rfloor> + 1"
    using floor_correct [of x] by simp_all
  then show ?thesis
    unfolding round_even_def Let_def by (auto simp: abs_le_iff)
qed

lemma f32_error:
  assumes "x \<noteq> 0"
  shows "\<bar>f32 x - x\<bar> \<le> 2 powi (ilog2 \<bar>x\<bar> - 24)"
proof -
  define u :: rat where "u = 2 powi (ilog2 \<bar>x\<bar> - 23)"
  have u: "0 < u" by (simp add: u_def)
  have half: "u / 2 = 2 powi (ilog2 \<bar>x\<bar> - 24)"
    using power_int_add [of "2::rat" "ilog2 \<bar>x\<bar> - 24" 1] by (simp add: u_def)
  have "f32 x - x = (of_int (round_even (x / u)) - x / u) * u"
    using assms u by (simp add: f32_def Let_def u_def field_simps)
  then have "\<bar>f32 x - x\<bar> = \<bar>of_int (round_even (x / u)) - x / u\<bar> * u"
    using u by (simp add: abs_mult)
  also have "\<dots> \<le> 1 / 2 * u"
    using round_even_error [of "x / u"] u by (simp only: mult_le_cancel_right_pos)
  finally show ?thesis using half by simp
qed

lemma f32_abs_error:
  assumes "\<bar>x\<bar> < 2 powi E"
  shows "\<bar>f32 x - x\<bar> \<le> 2 powi (E - 25)"
proof (cases "x = 0")
  case True
  then show ?thesis by (simp add: f32_zero)
next
  case False
  then have pos: "0 < \<bar>x\<bar>" by simp
  have "(2::rat) powi (ilog2 \<bar>x\<bar>) < 2 powi E"
    using ilog2_bounds(1) [OF pos] assms by linarith
  then have "ilog2 \<bar>x\<bar> < E"
    using power_int_increasing [of E "ilog2 \<bar>x\<bar>" "2::rat"] by (cases "ilog2 \<bar>x\<bar> < E") auto
  then have "ilog2 \<bar>x\<bar> - 24 \<le> E - 25" by simp
  then have "(2::rat) powi (ilog2 \<bar>x\<bar> - 24) \<le> 2 powi (E - 25)"
    by (rule power_int_increasing) simp
  then show ?thesis using f32_error [OF False] by linarith
qed

lemma f32_rel_error: "\<bar>f32 x - x\<bar> \<le> \<bar>x\<bar> / 2 ^ 24"
proof (cases "x = 0")
  case True
  then show ?thesis by (simp add: f32_zero)
next
  case False
  then have pos: "0 < \<bar>x\<bar>" by simp
  have "(2::rat) powi (ilog2 \<bar>x\<bar> - 24) = 2 powi (ilog2 \<bar>x\<bar>) / 2 ^ 24"
    using power_int_diff [of "2::rat" "ilog2 \<bar>x\<bar>" 24] by simp
  also have "\<dots> \<le> \<bar>x\<bar> / 2 ^ 24"
    using ilog2_bounds(1) [OF pos] by (simp add: divide_right_mono)
  finally show ?thesis using f32_error [OF False] by linarith
qed

lemma f32_one: "f32 1 = 1"
  using f32_of_int [of 1] by simp

lemma f32_half: "f32 (1 / 2) = 1 / 2"
  using f32_half_int [of 1] by simp

lemma f32_unit:
  assumes "0 \<le> x" and "x \<le> 1"
  shows "0 \<le> f32 x" and "f32 x \<le> 1"
  using f32_mono [OF assms(1)] f32_mono [OF assms(2)] by (simp_all add: f32_zero f32_one)

lemma f32_grid:
  assumes "1 / 2 \<le> x" and "x \<le> 1"
  shows "\<exists>m. f32 x = of_int m / 2 ^ 24 \<and> 0 \<le> m \<and> m \<le> 2 ^ 24"
proof (cases "x = 1")
  case True
  have "f32 1 = of_int (2 ^ 24) / 2 ^ 24" by (simp add: f32_one)
  then show ?thesis using True by (intro exI [of _ "2 ^ 24"]) simp
next
  case False
  with assms have x: "0 < x" "x < 1" by simp_all
  have e: "ilog2 x = - 1"
    using x assms(1) by (intro ilog2_unique) (simp_all add: power_int_minus)
  define r where "r = round_even (x / 2 powi (- 24))"
  have fx: "f32 x = of_int r * 2 powi (- 24)"
    using x e by (simp add: f32_def Let_def r_def)
  have p: "(2::rat) powi (- 24) = 1 / 2 ^ 24"
    by (simp add: power_int_minus field_simps)
  have "of_int 0 \<le> x / 2 powi (- 24)" using x by simp
  then have "round_even (of_int 0) \<le> r"
    unfolding r_def by (rule round_even_mono)
  then have r0: "0 \<le> r" by (simp only: round_even_of_int)
  have "x / 2 powi (- 24) \<le> of_int (2 ^ 24)"
    using x by (simp add: p)
  then have "r \<le> round_even (of_int (2 ^ 24))"
    unfolding r_def by (rule round_even_mono)
  then have r1: "r \<le> 2 ^ 24" by (simp only: round_even_of_int)
  show ?thesis
    using fx r0 r1 by (intro exI [of _ r]) (simp add: p)
qed

lemma f32_grid_exact:
  assumes "0 \<le> m" and "m \<le> 2 ^ 24"
  shows "f32 (of_int m / 2 ^ 24) = of_int m / 2 ^ 24"
proof (cases "m = 2 ^ 24")
  case True
  then show ?thesis by (simp add: f32_one)
next
  case False
  with assms have "\<bar>m\<bar> < 2 ^ 24" by simp
  then show ?thesis
    using f32_exact [of m "- 24"] by (simp add: power_int_minus field_simps)
qed

lemma i2f_exact: "\<bar>n\<bar> < 2 ^ 24 \<Longrightarrow> i2f n = of_int n"
  by (simp add: i2f_def f32_of_int)

lemma i2f_mono: "m \<le> n \<Longrightarrow> i2f m \<le> i2f n"
  by (simp add: i2f_def f32_mono)

lemma i2f_ge_one: "1 \<le> n \<Longrightarrow> 1 \<le> i2f n"
  using i2f_mono [of 1 n] i2f_exact [of 1] by simp

lemma fade_weight_grid:
  assumes "1 \<le> j" and "j \<le> F"
  shows "\<exists>m. fade_weight j F = of_int m / 2 ^ 24 \<and> 0 \<le> m \<and> m \<le> 2 ^ 24"
proof -
  define x where "x = i2f j / i2f F"
  define q where "q = f32 x"
  have j1: "1 \<le> i2f j" using assms(1) by (rule i2f_ge_one)
  have jF: "i2f j \<le> i2f F" using assms(2) by (rule i2f_mono)
  have x: "0 \<le> x" "x \<le> 1"
    using j1 jF by (simp_all add: x_def)
  have a: "fade_weight j F = f32 (1 - q)"
    by (simp add: fade_weight_def fsub_def fdiv_def q_def x_def)
  show ?thesis
  proof (cases "1 / 2 \<le> x")
    case True
    then obtain m where m: "q = of_int m / 2 ^ 24" "0 \<le> m" "m \<le> 2 ^ 24"
      using f32_grid [of x] x(2) unfolding q_def by blast
    have "1 - q = of_int (2 ^ 24 - m) / 2 ^ 24"
      by (simp add: m(1) field_simps)
    moreover have "f32 (of_int (2 ^ 24 - m) / 2 ^ 24) = of_int (2 ^ 24 - m) / 2 ^ 24"
      using m(2,3) by (intro f32_grid_exact) simp_all
    ultimately have "fade_weight j F = of_int (2 ^ 24 - m) / 2 ^ 24"
      by (simp only: a)
    then show ?thesis
      using m(2,3) by (intro exI [of _ "2 ^ 24 - m"]) simp
  next
    case False
    then have "x \<le> 1 / 2" by simp
    then have "q \<le> 1 / 2"
      using f32_mono [of x "1 / 2"] by (simp add: q_def f32_half)
    moreover have "0 \<le> q"
      using f32_unit(1) [OF x] by (simp add: q_def)
    ultimately have "1 / 2 \<le> 1 - q" "1 - q \<le> 1" by simp_all
    then show ?thesis
      unfolding a by (rule f32_grid)
  qed
qed

lemma fsub_one_grid:
  assumes "0 \<le> m" and "m \<le> 2 ^ 24"
  shows "fsub 1 (of_int m / 2 ^ 24) = 1 - of_int m / 2 ^ 24"
proof -
  have "1 - of_int m / 2 ^ 24 = (of_int (2 ^ 24 - m) / 2 ^ 24 :: rat)"
    by (simp add: field_simps)
  moreover have "f32 (of_int (2 ^ 24 - m) / 2 ^ 24) = of_int (2 ^ 24 - m) / 2 ^ 24"
    using assms by (intro f32_grid_exact) simp_all
  ultimately show ?thesis by (simp only: fsub_def)
qed

lemma sint16_of_int:
  "- 32768 \<le> k \<Longrightarrow> k \<le> 32767 \<Longrightarrow> sint (word_of_int k :: 16 word) = k"
  by (simp add: sint_sbintrunc' signed_take_bit_int_eq_self)

lemma sint16_range: "- 32768 \<le> sint (w :: 16 word)" "sint (w :: 16 word) \<le> 32767"
  using sint_ge [of w] sint_lt [of w] by simp_all

lemma vol_1_half: "vol_1 = 1 / 2"
  by (simp add: vol_1_def fdiv_def f32_half)

lemma i2f_sint16: "i2f (sint (w :: 16 word)) = of_int (sint w)"
  using sint16_range [of w] by (intro i2f_exact) simp

lemma f32_upper_edge: "f32 (32767 + 1 / 1024) = 32767"
  by code_simp

lemma f32_lower_edge: "f32 (- 32768 - 1 / 1024) = - 32768"
  by code_simp

lemma crossfade_range:
  assumes a: "a = of_int m / 2 ^ 24" and m: "0 \<le> m" "m \<le> 2 ^ 24"
    and v: "- 16384 \<le> sint (v :: 16 word)" "sint v \<le> 16383"
  shows "- 32768 \<le> \<lceil>fadd (fmul a (i2f (sint v))) (fmul (fsub 1 a) (i2f (sint nxt)))\<rceil>"
    and "\<lceil>fadd (fmul a (i2f (sint v))) (fmul (fsub 1 a) (i2f (sint (nxt :: 16 word))))\<rceil> \<le> 32767"
proof -
  define P :: rat where "P = a * of_int (sint v)"
  define Q :: rat where "Q = (1 - a) * of_int (sint nxt)"
  define S where "S = f32 P + f32 Q"
  have sub: "fsub 1 a = 1 - a"
    unfolding a using m by (rule fsub_one_grid)
  have val: "fadd (fmul a (i2f (sint v))) (fmul (fsub 1 a) (i2f (sint nxt))) = f32 S"
    by (simp add: fadd_def fmul_def sub i2f_sint16 P_def Q_def S_def)
  have a0: "0 \<le> a" and a1: "a \<le> 1"
    using m by (simp_all add: a)
  have n: "- 32768 \<le> (of_int (sint nxt) :: rat)" "(of_int (sint nxt) :: rat) \<le> 32767"
    using sint16_range [of nxt] of_int_le_iff [where ?'a = rat, of "- 32768" "sint nxt"]
      of_int_le_iff [where ?'a = rat, of "sint nxt" 32767] by simp_all
  have vr: "- 16384 \<le> (of_int (sint v) :: rat)" "(of_int (sint v) :: rat) \<le> 16383"
    using v of_int_le_iff [where ?'a = rat, of "- 16384" "sint v"]
      of_int_le_iff [where ?'a = rat, of "sint v" 16383] by simp_all
  have "- 32768 - 1 / 1024 \<le> S \<and> S \<le> 32767 + 1 / 1024"
  proof (cases "m = 0")
    case True
    then have "a = 0" by (simp add: a)
    then have "P = 0" "Q = of_int (sint nxt)" by (simp_all add: P_def Q_def)
    moreover have "f32 (of_int (sint nxt)) = of_int (sint nxt)"
      using sint16_range [of nxt] by (intro f32_of_int) simp
    ultimately have "S = of_int (sint nxt)" by (simp add: S_def f32_zero)
    then show ?thesis using n by simp
  next
    case False
    with m have "1 \<le> m" by simp
    then have "(1::rat) \<le> of_int m"
      using of_int_le_iff [where ?'a = rat, of 1 m] by simp
    then have amin: "1 / 2 ^ 24 \<le> a" by (simp add: a divide_right_mono)
    have P_hi: "P \<le> 16383 * a"
      using mult_left_mono [OF vr(2) a0] by (simp add: P_def mult.commute)
    have P_lo: "- 16384 * a \<le> P"
      using mult_left_mono [OF vr(1) a0] by (simp add: P_def mult.commute)
    have b0: "0 \<le> 1 - a" using a1 by simp
    have Q_hi: "Q \<le> 32767 * (1 - a)"
      using mult_left_mono [OF n(2) b0] by (simp add: Q_def mult.commute)
    have Q_lo: "- 32768 * (1 - a) \<le> Q"
      using mult_left_mono [OF n(1) b0] by (simp add: Q_def mult.commute)
    have "\<bar>P\<bar> \<le> 16384 * a" using P_hi P_lo a0 by (simp add: abs_le_iff)
    then have eP: "\<bar>f32 P - P\<bar> \<le> 16384 * a / 2 ^ 24"
      using f32_rel_error [of P] divide_right_mono [of "\<bar>P\<bar>" "16384 * a" "2 ^ 24"] by simp
    have "\<bar>Q\<bar> < 2 powi 15" using Q_hi Q_lo amin by (simp add: abs_less_iff)
    then have "\<bar>f32 Q - Q\<bar> \<le> 2 powi (15 - 25)" by (rule f32_abs_error)
    then have eQ: "\<bar>f32 Q - Q\<bar> \<le> 1 / 1024" by (simp add: power_int_minus)
    show ?thesis
      using P_hi P_lo Q_hi Q_lo eP eQ amin unfolding S_def abs_le_iff by simp
  qed
  then have lo: "- 32768 - 1 / 1024 \<le> S" and hi: "S \<le> 32767 + 1 / 1024" by simp_all
  have "f32 (- 32768 - 1 / 1024) \<le> f32 S" using lo by (rule f32_mono)
  then have "- 32768 \<le> f32 S" unfolding f32_lower_edge .
  then have "- 32768 \<le> \<lceil>f32 S\<rceil>" by (simp add: le_ceiling_iff)
  then show "- 32768 \<le> \<lceil>fadd (fmul a (i2f (sint v))) (fmul (fsub 1 a) (i2f (sint nxt)))\<rceil>"
    by (simp only: val)
  have "f32 S \<le> f32 (32767 + 1 / 1024)" using hi by (rule f32_mono)
  then have "f32 S \<le> 32767" unfolding f32_upper_edge .
  then have "\<lceil>f32 S\<rceil> \<le> 32767" by (simp add: ceiling_le_iff)
  then show "\<lceil>fadd (fmul a (i2f (sint v))) (fmul (fsub 1 a) (i2f (sint nxt)))\<rceil> \<le> 32767"
    by (simp only: val)
qed

section \<open>The loops of \<open>GetAudio\<close>\<close>

lemma u64_id: "0 \<le> x \<Longrightarrow> x < 2 ^ 64 \<Longrightarrow> u64 x = x"
  by (simp add: u64_def)

lemma i32_id: "- (2 ^ 31) \<le> x \<Longrightarrow> x < 2 ^ 31 \<Longrightarrow> i32 x = x"
  by (simp add: i32_def)

lemma scaled_half: "scaled s = of_int (sint s) / 2"
proof -
  have a: "\<bar>sint s\<bar> < 2 ^ 24"
    using sint16_range [of s] by simp
  have "scaled s = f32 (of_int (sint s) * (1 / 2))"
    by (simp only: scaled_def fmul_def vol_1_half i2f_sint16)
  also have "\<dots> = f32 (of_int (sint s) / 2)" by simp
  also have "\<dots> = of_int (sint s) / 2" using a by (rule f32_half_int)
  finally show ?thesis .
qed

lemma trunc_of_int: "trunc (of_int k) = k"
  by (simp add: trunc_def)

lemma trunc_half_range:
  assumes "- 32768 \<le> k" and "k \<le> 32767"
  shows "- 16384 \<le> trunc (of_int k / 2)" and "trunc (of_int k / 2) \<le> 16383"
proof -
  have two: "(2::rat) = of_int 2" by simp
  have "\<lfloor>(of_int k :: rat) / 2\<rfloor> = k div 2"
    unfolding two by (rule floor_divide_of_int_eq)
  moreover have "- (of_int k / 2 :: rat) = of_int (- k) / of_int 2" by simp
  then have "\<lfloor>- (of_int k / 2 :: rat)\<rfloor> = (- k) div 2"
    by (simp only: floor_divide_of_int_eq)
  ultimately have "trunc (of_int k / 2) = (if 0 \<le> k then k div 2 else - ((- k) div 2))"
    by (simp add: trunc_def ceiling_def)
  then show "- 16384 \<le> trunc (of_int k / 2)" and "trunc (of_int k / 2) \<le> 16383"
    using assms by auto
qed

lemma f2i16_scaled: "f2i16 (scaled s) = Inr (half s)"
  using trunc_half_range [of "sint s"] sint16_range [of s]
  by (simp add: f2i16_def scaled_half half_def Let_def del: of_int_sint)

lemma sint_half: "- 16384 \<le> sint (half s)" "sint (half s) \<le> 16383"
  using trunc_half_range [of "sint s"] sint16_range [of s]
  by (simp_all add: half_def sint16_of_int del: of_int_sint)

lemma mix_add_float_scaled:
  assumes "i < length mix" and "fits (mix ! i) s"
  shows "mix_add_float mix (int i) (scaled s) = Inr (mix[i := mixed (mix ! i) s])"
proof -
  have "\<bar>2 * sint (mix ! i) + sint s\<bar> < 2 ^ 24"
    using sint16_range [of "mix ! i"] sint16_range [of s] by simp
  then have "f32 (of_int (2 * sint (mix ! i) + sint s) / 2) = of_int (2 * sint (mix ! i) + sint s) / 2"
    by (rule f32_half_int)
  moreover have "(of_int (2 * sint (mix ! i) + sint s) / 2 :: rat) = of_int (sint (mix ! i)) + of_int (sint s) / 2"
    by (simp del: of_int_sint)
  ultimately have "f32 (of_int (sint (mix ! i)) + of_int (sint s) / 2) = of_int (sint (mix ! i)) + of_int (sint s) / 2"
    by (simp only:)
  then have "fadd (i2f (sint (mix ! i))) (scaled s) = of_int (sint (mix ! i)) + of_int (sint s) / 2"
    by (simp only: fadd_def scaled_half i2f_sint16)
  then show ?thesis
    using assms by (simp add: mix_add_float_def f2i16_def fits_def mixed_def Let_def del: of_int_sint)
qed

lemma copy_loop_ok:
  assumes "p + k \<le> length src" and "i + k \<le> length mix"
    and "\<forall>d<k. fits (mix ! (i + d)) (src ! (p + d))"
  shows "copy_loop k src (int p) mix (int i) =
    Inr (map (\<lambda>x. if i \<le> x \<and> x < i + k then mixed (mix ! x) (src ! (p + (x - i))) else mix ! x)
      [0..<length mix])"
  using assms
proof (induction k arbitrary: p mix i)
  case 0
  show ?case by (auto intro!: nth_equalityI)
next
  case (Suc k)
  define mix1 where "mix1 = mix[i := mixed (mix ! i) (src ! p)]"
  have rd: "read_sample src (int p) = Inr (src ! p)"
    using Suc.prems(1) by (simp add: read_sample_def)
  have "fits (mix ! i) (src ! p)" using Suc.prems(3) by force
  then have wr: "mix_add_float mix (int i) (scaled (src ! p)) = Inr mix1"
    using Suc.prems(2) by (simp add: mix_add_float_scaled mix1_def)
  have ip: "int p + 1 = int (Suc p)" "int i + 1 = int (Suc i)" by simp_all
  have step: "copy_loop (Suc k) src (int p) mix (int i) = copy_loop k src (int (Suc p)) mix1 (int (Suc i))"
    by (simp only: copy_loop.simps rd wr sum.case ip)
  have fit1: "\<forall>d<k. fits (mix1 ! (Suc i + d)) (src ! (Suc p + d))"
  proof (intro allI impI)
    fix d assume "d < k"
    then have "fits (mix ! (i + Suc d)) (src ! (p + Suc d))"
      using Suc.prems(3) by (metis Suc_less_eq)
    then show "fits (mix1 ! (Suc i + d)) (src ! (Suc p + d))"
      by (simp add: mix1_def)
  qed
  have "copy_loop k src (int (Suc p)) mix1 (int (Suc i)) =
    Inr (map (\<lambda>x. if Suc i \<le> x \<and> x < Suc i + k then mixed (mix1 ! x) (src ! (Suc p + (x - Suc i))) else mix1 ! x)
      [0..<length mix1])"
    using Suc.prems(1,2) fit1 by (intro Suc.IH) (simp_all add: mix1_def)
  also have "map (\<lambda>x. if Suc i \<le> x \<and> x < Suc i + k then mixed (mix1 ! x) (src ! (Suc p + (x - Suc i))) else mix1 ! x)
      [0..<length mix1] =
    map (\<lambda>x. if i \<le> x \<and> x < i + Suc k then mixed (mix ! x) (src ! (p + (x - i))) else mix ! x)
      [0..<length mix]"
  proof (rule map_cong)
    show "[0..<length mix1] = [0..<length mix]" by (simp add: mix1_def)
  next
    fix x assume "x \<in> set [0..<length mix]"
    then have len: "x < length mix" by simp
    consider "x < i" | "x = i" | "i < x" by linarith
    then show "(if Suc i \<le> x \<and> x < Suc i + k then mixed (mix1 ! x) (src ! (Suc p + (x - Suc i))) else mix1 ! x) =
      (if i \<le> x \<and> x < i + Suc k then mixed (mix ! x) (src ! (p + (x - i))) else mix ! x)"
    proof cases
      case 1
      then show ?thesis by (simp add: mix1_def)
    next
      case 2
      then show ?thesis using len by (simp add: mix1_def)
    next
      case 3
      then have "Suc p + (x - Suc i) = p + (x - i)" by arith
      then show ?thesis using 3 by (simp only: mix1_def) simp
    qed
  qed
  finally show ?case by (simp only: step)
qed


lemma f2i16_crossfade:
  assumes "1 \<le> j" and "j \<le> F"
  shows "f2i16 (crossfade (fade_weight j F) (half s) nxt) = Inr (faded F j s nxt)"
proof -
  obtain m where m: "fade_weight j F = of_int m / 2 ^ 24" "0 \<le> m" "m \<le> 2 ^ 24"
    using fade_weight_grid [OF assms] by blast
  show ?thesis
    using crossfade_range [OF m sint_half, of s nxt]
    by (simp add: f2i16_def faded_def crossfade_def ceilf_def trunc_of_int Let_def del: of_int_sint)
qed

lemma mix_add_int16_ok:
  "i < length mix \<Longrightarrow> mix_add_int16 mix (int i) v = Inr (mix[i := mix ! i + v])"
  by (simp add: mix_add_int16_def)

lemma fade_loop_ok:
  assumes "p + k \<le> length src" and "i + k \<le> length mix" and "0 \<le> j" and "j + int k \<le> F"
  shows "fade_loop k F nxt src (int p) mix (int i) j =
    Inr (map (\<lambda>x. if i \<le> x \<and> x < i + k
                    then mix ! x + faded F (j + 1 + int (x - i)) (src ! (p + (x - i))) nxt
                    else mix ! x)
      [0..<length mix])"
  using assms
proof (induction k arbitrary: p mix i j)
  case 0
  show ?case by (auto intro!: nth_equalityI)
next
  case (Suc k)
  define mix1 where "mix1 = mix[i := mix ! i + faded F (j + 1) (src ! p) nxt]"
  have rd: "read_sample src (int p) = Inr (src ! p)"
    using Suc.prems(1) by (simp add: read_sample_def)
  have cf: "f2i16 (crossfade (fade_weight (j + 1) F) (half (src ! p)) nxt) = Inr (faded F (j + 1) (src ! p) nxt)"
    using Suc.prems(3,4) by (intro f2i16_crossfade) simp_all
  have wr: "mix_add_int16 mix (int i) (faded F (j + 1) (src ! p) nxt) = Inr mix1"
    using Suc.prems(2) by (simp add: mix_add_int16_ok mix1_def)
  have ip: "int p + 1 = int (Suc p)" "int i + 1 = int (Suc i)" by simp_all
  have step: "fade_loop (Suc k) F nxt src (int p) mix (int i) j =
      fade_loop k F nxt src (int (Suc p)) mix1 (int (Suc i)) (j + 1)"
    by (simp only: fade_loop.simps Let_def rd f2i16_scaled cf wr sum.case ip)
  have "fade_loop k F nxt src (int (Suc p)) mix1 (int (Suc i)) (j + 1) =
    Inr (map (\<lambda>x. if Suc i \<le> x \<and> x < Suc i + k
                    then mix1 ! x + faded F (j + 1 + 1 + int (x - Suc i)) (src ! (Suc p + (x - Suc i))) nxt
                    else mix1 ! x)
      [0..<length mix1])"
    using Suc.prems by (intro Suc.IH) (simp_all add: mix1_def)
  also have "map (\<lambda>x. if Suc i \<le> x \<and> x < Suc i + k
                    then mix1 ! x + faded F (j + 1 + 1 + int (x - Suc i)) (src ! (Suc p + (x - Suc i))) nxt
                    else mix1 ! x)
      [0..<length mix1] =
    map (\<lambda>x. if i \<le> x \<and> x < i + Suc k
                    then mix ! x + faded F (j + 1 + int (x - i)) (src ! (p + (x - i))) nxt
                    else mix ! x)
      [0..<length mix]"
  proof (rule map_cong)
    show "[0..<length mix1] = [0..<length mix]" by (simp add: mix1_def)
  next
    fix x assume "x \<in> set [0..<length mix]"
    then have len: "x < length mix" by simp
    consider "x < i" | "x = i" | "i < x" by linarith
    then show "(if Suc i \<le> x \<and> x < Suc i + k
                    then mix1 ! x + faded F (j + 1 + 1 + int (x - Suc i)) (src ! (Suc p + (x - Suc i))) nxt
                    else mix1 ! x) =
      (if i \<le> x \<and> x < i + Suc k
                    then mix ! x + faded F (j + 1 + int (x - i)) (src ! (p + (x - i))) nxt
                    else mix ! x)"
    proof cases
      case 1
      then show ?thesis by (simp add: mix1_def)
    next
      case 2
      then show ?thesis using len by (simp add: mix1_def)
    next
      case 3
      then have "Suc p + (x - Suc i) = p + (x - i)" "j + 1 + 1 + int (x - Suc i) = j + 1 + int (x - i)"
        by arith+
      then show ?thesis using 3 by (simp only: mix1_def) simp
    qed
  qed
  finally show ?case by (simp only: step)
qed


lemma GetAudio_with_active:
  "m_pPendingTrack t = Some k \<Longrightarrow> GetAudio t (Some mix) n pos = GetAudio_active t mix n pos"
  by (simp add: GetAudio_def)

lemma sampleOffset_of_mod:
  assumes "0 \<le> pos" and "pos < 2 ^ 31" and "0 < getSampleCount c"
  shows "sampleOffset_of c pos = pos mod getSampleCount c"
proof -
  have "pos mod getSampleCount c \<le> pos"
    using assms(1) by (rule zmod_le_nonneg_dividend)
  moreover have "0 \<le> pos mod getSampleCount c"
    using assms(3) by simp
  ultimately show ?thesis
    using assms(1,2) by (simp add: sampleOffset_of_def u64_id i32_id)
qed

lemma GetAudio_active_nowrap:
  assumes clip: "m_pPendingTrack t = Some k" "map_of (m_mapClips t) k = Some c"
    and pos: "0 \<le> pos" "pos < 2 ^ 31"
    and n: "0 \<le> n" "n < 2 ^ 31"
    and nowrap: "pos mod getSampleCount c + n < getSampleCount c"
    and room: "n \<le> int (length mix)"
    and fit: "\<forall>i<nat n. fits (mix ! i) (samples c ! (nat (pos mod getSampleCount c) + i))"
  shows "GetAudio_active t mix n pos =
    Inr (True, t, Some (rendered_inside mix (samples c) (nat (pos mod getSampleCount c)) n))"
proof -
  define off where "off = pos mod getSampleCount c"
  have L: "0 < getSampleCount c"
    using nowrap n(1) pos(1) by (cases "getSampleCount c \<le> 0") (simp_all add: getSampleCount_def)
  have off: "sampleOffset_of c pos = off"
    unfolding off_def using pos L by (rule sampleOffset_of_mod)
  have off0: "0 \<le> off" "off \<le> pos"
    using L pos(1) by (simp_all add: off_def zmod_le_nonneg_dividend)
  have "u64 (off + n) = off + n"
    using off0 n pos by (intro u64_id) simp_all
  then have nl: "\<not> crosses_end c n pos"
    using nowrap by (simp add: crosses_end_def off off_def)
  have "copy_loop (nat n) (samples c) (int (nat off)) mix (int 0) =
    Inr (map (\<lambda>x. if 0 \<le> x \<and> x < 0 + nat n then mixed (mix ! x) (samples c ! (nat off + (x - 0))) else mix ! x)
      [0..<length mix])"
    using nowrap room n off0 fit
    by (intro copy_loop_ok) (simp_all add: off_def getSampleCount_def)
  then have cp: "copy_loop (nat n) (samples c) off mix 0 =
    Inr (map (\<lambda>x. if x < nat n then mixed (mix ! x) (samples c ! (nat off + x)) else mix ! x)
      [0..<length mix])"
    using off0 by simp
  have "GetAudio_active t mix n pos =
    Inr (True, t, Some (map (\<lambda>x. if x < nat n then mixed (mix ! x) (samples c ! (nat off + x)) else mix ! x)
      [0..<length mix]))"
    using L by (simp add: GetAudio_active_def deref_def clip Let_def off nl cp)
  then show ?thesis by (simp only: off_def rendered_inside_def)
qed

lemma GetAudio_active_boundary:
  assumes clip: "m_pPendingTrack t = Some k" "map_of (m_mapClips t) k = Some c"
    and pos: "0 \<le> pos" "pos < 2 ^ 31"
    and n: "n < 2 ^ 31"
    and L: "0 < getSampleCount c"
    and wrap: "pos mod getSampleCount c + n = getSampleCount c"
    and F: "0 \<le> m_nFadeSamples t" "m_nFadeSamples t \<le> n"
    and room: "n \<le> int (length mix)"
    and fit: "\<forall>i<nat (n - m_nFadeSamples t). fits (mix ! i) (samples c ! (nat (pos mod getSampleCount c) + i))"
    and nxt: "next_sample t = Inr nxt"
  shows "GetAudio_active t mix n pos =
    Inr (True, t\<lparr> m_pPendingTrack := m_pPendingClip t \<rparr>,
      Some (rendered_wrap mix (samples c) (nat (pos mod getSampleCount c)) n (m_nFadeSamples t) nxt))"
proof -
  define off where "off = pos mod getSampleCount c"
  define nF where "nF = m_nFadeSamples t"
  define src where "src = samples c"
  define mix1 where "mix1 = map (\<lambda>x. if x < nat (n - nF) then mixed (mix ! x) (src ! (nat off + x)) else mix ! x)
      [0..<length mix]"
  have off: "sampleOffset_of c pos = off"
    unfolding off_def using pos L by (rule sampleOffset_of_mod)
  have off0: "0 \<le> off" "off \<le> pos" "off < getSampleCount c"
    using L pos(1) by (simp_all add: off_def zmod_le_nonneg_dividend)
  have n0: "0 < n" using wrap off0(3) by (simp add: off_def)
  have "u64 (off + n) = off + n"
    using off0 n n0 pos by (intro u64_id) simp_all
  then have cr: "crosses_end c n pos"
    using wrap by (simp add: crosses_end_def off off_def)
  have len: "nat off + nat n = length src"
    using wrap off0 n0 by (simp add: off_def src_def getSampleCount_def)
  have "copy_loop (nat (n - nF)) src (int (nat off)) mix (int 0) =
    Inr (map (\<lambda>x. if 0 \<le> x \<and> x < 0 + nat (n - nF) then mixed (mix ! x) (src ! (nat off + (x - 0))) else mix ! x)
      [0..<length mix])"
    using len room F fit n0
    by (intro copy_loop_ok) (simp_all add: off_def nF_def src_def)
  then have cp: "copy_loop (nat (n - nF)) src off mix 0 = Inr mix1"
    using off0 by (simp add: mix1_def)
  have "fade_loop (nat nF) nF nxt src (int (nat off + nat (n - nF))) mix1 (int (nat (n - nF))) 0 =
    Inr (map (\<lambda>x. if nat (n - nF) \<le> x \<and> x < nat (n - nF) + nat nF
                    then mix1 ! x + faded nF (0 + 1 + int (x - nat (n - nF))) (src ! (nat off + nat (n - nF) + (x - nat (n - nF)))) nxt
                    else mix1 ! x)
      [0..<length mix1])"
    using len room F n0
    by (intro fade_loop_ok) (simp_all add: nF_def mix1_def)
  also have "map (\<lambda>x. if nat (n - nF) \<le> x \<and> x < nat (n - nF) + nat nF
                    then mix1 ! x + faded nF (0 + 1 + int (x - nat (n - nF))) (src ! (nat off + nat (n - nF) + (x - nat (n - nF)))) nxt
                    else mix1 ! x)
      [0..<length mix1] =
    map (\<lambda>x. if x < nat (n - nF)
          then mixed (mix ! x) (src ! (nat off + x))
          else if x < nat n
          then mix ! x + faded nF (1 + int (x - nat (n - nF))) (src ! (nat off + x)) nxt
          else mix ! x)
        [0..<length mix]"
  proof (rule map_cong)
    show "[0..<length mix1] = [0..<length mix]" by (simp add: mix1_def)
  next
    fix x assume "x \<in> set [0..<length mix]"
    then have xl: "x < length mix" by simp
    have sum: "nat (n - nF) + nat nF = nat n"
      using F n0 by (simp add: nF_def)
    show "(if nat (n - nF) \<le> x \<and> x < nat (n - nF) + nat nF
                    then mix1 ! x + faded nF (0 + 1 + int (x - nat (n - nF))) (src ! (nat off + nat (n - nF) + (x - nat (n - nF)))) nxt
                    else mix1 ! x) =
      (if x < nat (n - nF)
          then mixed (mix ! x) (src ! (nat off + x))
          else if x < nat n
          then mix ! x + faded nF (1 + int (x - nat (n - nF))) (src ! (nat off + x)) nxt
          else mix ! x)"
    proof (cases "x < nat (n - nF)")
      case True
      then show ?thesis using xl by (simp add: mix1_def)
    next
      case False
      then have "nat off + nat (n - nF) + (x - nat (n - nF)) = nat off + x" by simp
      then show ?thesis using False xl by (simp add: mix1_def sum)
    qed
  qed
  finally have fd: "fade_loop (nat nF) nF nxt src (off + (n - nF)) mix1 (n - nF) 0 =
    Inr (map (\<lambda>x. if x < nat (n - nF)
          then mixed (mix ! x) (src ! (nat off + x))
          else if x < nat n
          then mix ! x + faded nF (1 + int (x - nat (n - nF))) (src ! (nat off + x)) nxt
          else mix ! x)
        [0..<length mix])"
    using off0 F by (simp add: nF_def)
  have mx: "max 0 (n - nF) = n - nF" "nat (n - (n - nF)) = nat nF"
    using F by (simp_all add: nF_def)
  have "GetAudio_active t mix n pos =
    Inr (True, t\<lparr> m_pPendingTrack := m_pPendingClip t \<rparr>,
      Some (map (\<lambda>x. if x < nat (n - nF)
          then mixed (mix ! x) (src ! (nat off + x))
          else if x < nat n
          then mix ! x + faded nF (1 + int (x - nat (n - nF))) (src ! (nat off + x)) nxt
          else mix ! x)
        [0..<length mix]))"
    using L
    by (simp add: GetAudio_active_def deref_def clip Let_def off cr nxt
      nF_def [symmetric] src_def [symmetric] cp fd mx)
  then show ?thesis by (simp only: off_def nF_def src_def rendered_wrap_def)
qed

section \<open>\<open>Track::SetPendingTrack\<close>\<close>

text \<open>
  Claim C6.  \<open>SetPendingTrack\<close> returns true and makes the clip stored under the name the
  pending clip when the name is a key of the clip map; otherwise it clears the pending clip
  and returns false.  The active clip and every other member are left as they were, the
  function has no failing outcome, and a second call with the same name returns the same
  flag and the same track as the first.
\<close>

theorem SetPendingTrack_contract:
  "SetPendingTrack t name =
     (HasClip t name, t\<lparr> m_pPendingClip := (if HasClip t name then Some name else None) \<rparr>)
   \<and> deref (m_mapClips (snd (SetPendingTrack t name))) (m_pPendingClip (snd (SetPendingTrack t name))) =
       (case map_of (m_mapClips t) name of None \<Rightarrow> Inl NullPointer | Some c \<Rightarrow> Inr c)
   \<and> m_pPendingTrack (snd (SetPendingTrack t name)) = m_pPendingTrack t
   \<and> SetPendingTrack (snd (SetPendingTrack t name)) name = SetPendingTrack t name"
  by (cases "map_of (m_mapClips t) name") (simp_all add: SetPendingTrack_def HasClip_def deref_def)

theorem SetPendingTrack_contract_witness:
  "SetPendingTrack track_400 ''a'' = (True, track_400)
   \<and> SetPendingTrack track_400 ''zzz'' = (False, track_400\<lparr> m_pPendingClip := None \<rparr>)"
proof -
  have has: "HasClip track_400 ''a''" "\<not> HasClip track_400 ''zzz''"
    by code_simp+
  have same: "track_400\<lparr> m_pPendingClip := Some ''a'' \<rparr> = track_400"
    by code_simp
  show ?thesis
    using SetPendingTrack_contract [of track_400 "''a''"]
      SetPendingTrack_contract [of track_400 "''zzz''"] has same
    by simp
qed

section \<open>\<open>LoopLauncher::UpdatePendingClips\<close>\<close>

text \<open>
  Claim C7.  The flag returned by \<open>UpdatePendingClips\<close> is \<open>m_bNeedsAudio == false\<close>, and
  the member is only reset by \<open>postPendingTracks\<close>.  After one call has staged clip
  \<open>a\<close> for track \<open>drums\<close>, a second call asking for a clip that no track has stages
  nothing, leaves the launcher as it was, and still returns true.
\<close>

theorem UpdatePendingClips_stale_flag:
  "UpdatePendingClips launcher_demo [''a''] =
     (True, launcher_demo\<lparr> m_bNeedsAudio := False, m_mapPendingTracks := [(''drums'', ''a'')] \<rparr>)
   \<and> UpdatePendingClips (snd (UpdatePendingClips launcher_demo [''a''])) [''zzz''] =
     (True, snd (UpdatePendingClips launcher_demo [''a'']))"
  by code_simp

section \<open>\<open>Track::GetAudio\<close> outside the clip and outside the mix buffer\<close>

text \<open>
  Claim C1.  A window that reaches beyond the end of the active clip is read from the
  sample array without any bound.  The track holds one clip of four samples with fade
  length 2; a first call for two samples at position 0 makes it the active clip, and a call
  for four samples at position 2 then mixes samples 2 and 3 and reads sample 4, which the
  clip does not have.
\<close>

theorem GetAudio_reads_past_clip_end:
  "GetAudio track_400 (Some [0, 0]) 2 0 = Inr (True, playing_400, Some [50, - 100])
   \<and> GetAudio playing_400 (Some [0, 0, 0, 0]) 4 2 = Inl (OutOfBoundsRead 4)"
  by code_simp

text \<open>
  Claim C2.  With a fade length greater than the number of samples asked for, \<open>lastSample\<close>
  is negative and is used as it is for the first index of the crossfade loop.  The track
  holds one clip of four samples with fade length 4; a first call for two samples at
  position 0 makes it the active clip, and the next call for two samples, at position 2,
  ends at the end of the clip and writes \<open>pMixBuffer[-2]\<close>.
\<close>

theorem GetAudio_writes_before_mix_buffer:
  "GetAudio track_800 (Some [0, 0]) 2 0 = Inr (True, playing_800, Some [50, 100])
   \<and> GetAudio playing_800 (Some [0, 0]) 2 2 = Inl (OutOfBoundsWrite (- 2))"
  by code_simp

section \<open>\<open>Track::GetAudio\<close> inside the clip\<close>

lemma sint_mixed:
  "fits m s \<Longrightarrow> sint (mixed m s) = trunc (of_int (sint m) + of_int (sint s) / 2)"
  by (simp add: fits_def mixed_def Let_def sint16_of_int del: of_int_sint)

text \<open>
  Claim C4.  Inside the clip the first loop executes \<open>pMixBuffer[i] += *pSoundBuf++ * vol_1\<close>:
  the sum is formed in \<open>float\<close> and converted back to \<open>sf::Int16\<close> with no clamp, and the
  conversion is undefined once the truncated sum leaves the range of \<open>sf::Int16\<close>.  The
  track \<open>keys\<close> plays a clip of 64 samples of value 32767; a call for one sample at position
  0 stays inside the clip (\<open>0 + 1 < 64\<close>).  On a buffer holding 0 or 16383 it adds 16383, on
  a buffer holding 32766 the sum is 49149.5 and the call has no defined result.  The
  stream callback reaches this call: after \<open>Initialize\<close> with the three tracks, a request
  for their clips and \<open>Play\<close>, the first \<open>onGetData\<close> mixes \<open>bass\<close> and \<open>drums\<close> to 32766
  and overflows in \<open>keys\<close>.
\<close>

theorem GetAudio_mix_sum_overflows:
  "m_pPendingTrack playing_loud = Some ''c''
   \<and> deref (m_mapClips playing_loud) (m_pPendingTrack playing_loud) = Inr clip_loud
   \<and> sampleOffset_of clip_loud 0 + 1 < getSampleCount clip_loud
   \<and> GetAudio playing_loud (Some [0]) 1 0 = Inr (True, playing_loud, Some [16383])
   \<and> GetAudio playing_loud (Some [16383]) 1 0 = Inr (True, playing_loud, Some [32766])
   \<and> GetAudio playing_loud (Some [32766]) 1 0 = Inl FloatToIntOverflow
   \<and> Initialize loud_fs LoopLauncher_default loud_tracks = Inr (True, loud_launcher)
   \<and> onGetData (Play (snd (UpdatePendingClips loud_launcher [''a'', ''b'', ''c''])))
       = Inl FloatToIntOverflow"
  by code_simp

text \<open>
  The calls inside the clip in which every conversion is defined.  A call with a mix buffer
  and an active clip \<open>c\<close> whose window stays inside the clip (\<open>offset + n < length\<close>,
  \<open>offset = pos mod length\<close>) returns true and leaves the track, with its active and pending
  clip, as it was.  The first \<open>n\<close> entries of the mix buffer become the old entry plus half
  the sample at \<open>offset + i\<close>, the sum formed in \<open>float\<close> and truncated towards zero; the
  other entries keep their values.  The hypotheses are those of a defined call: \<open>pos\<close> and
  \<open>n\<close> are non-negative \<open>int\<close>s, the buffer has \<open>n\<close> slots, and no sum leaves the range of
  \<open>sf::Int16\<close> (\<open>fits\<close>).
\<close>

theorem GetAudio_inside_clip:
  assumes "m_pPendingTrack t = Some k" and "map_of (m_mapClips t) k = Some c"
    and "0 \<le> pos" and "pos < 2 ^ 31" and "0 \<le> n" and "n < 2 ^ 31"
    and "pos mod getSampleCount c + n < getSampleCount c"
    and "n \<le> int (length mix)"
    and "\<forall>i<nat n. fits (mix ! i) (samples c ! (nat (pos mod getSampleCount c) + i))"
  shows "GetAudio t (Some mix) n pos =
      Inr (True, t, Some (rendered_inside mix (samples c) (nat (pos mod getSampleCount c)) n))
    \<and> length (rendered_inside mix (samples c) (nat (pos mod getSampleCount c)) n) = length mix
    \<and> (\<forall>i<nat n. sint (rendered_inside mix (samples c) (nat (pos mod getSampleCount c)) n ! i) =
          trunc (of_int (sint (mix ! i)) + of_int (sint (samples c ! (nat (pos mod getSampleCount c) + i))) / 2))
    \<and> (\<forall>i. nat n \<le> i \<and> i < length mix \<longrightarrow>
          rendered_inside mix (samples c) (nat (pos mod getSampleCount c)) n ! i = mix ! i)"
proof -
  have "GetAudio t (Some mix) n pos = GetAudio_active t mix n pos"
    using assms(1) by (rule GetAudio_with_active)
  also have "\<dots> = Inr (True, t, Some (rendered_inside mix (samples c) (nat (pos mod getSampleCount c)) n))"
    using assms by (rule GetAudio_active_nowrap)
  finally have run: "GetAudio t (Some mix) n pos =
      Inr (True, t, Some (rendered_inside mix (samples c) (nat (pos mod getSampleCount c)) n))" .
  have "\<forall>i<nat n. sint (rendered_inside mix (samples c) (nat (pos mod getSampleCount c)) n ! i) =
          trunc (of_int (sint (mix ! i)) + of_int (sint (samples c ! (nat (pos mod getSampleCount c) + i))) / 2)"
  proof (intro allI impI)
    fix i assume i: "i < nat n"
    then have "i < length mix" using assms(8) by simp
    then have "rendered_inside mix (samples c) (nat (pos mod getSampleCount c)) n ! i =
        mixed (mix ! i) (samples c ! (nat (pos mod getSampleCount c) + i))"
      using i by (simp add: rendered_inside_def)
    then show "sint (rendered_inside mix (samples c) (nat (pos mod getSampleCount c)) n ! i) =
          trunc (of_int (sint (mix ! i)) + of_int (sint (samples c ! (nat (pos mod getSampleCount c) + i))) / 2)"
      using assms(9) i by (simp only: sint_mixed)
  qed
  then show ?thesis
    using run by (simp add: rendered_inside_def del: of_int_sint)
qed

theorem GetAudio_inside_clip_witness:
  "GetAudio playing_400 (Some [7, - 2, 9]) 2 1 = Inr (True, playing_400, Some [- 93, 149, 9])"
proof -
  have a: "m_pPendingTrack playing_400 = Some ''a''"
    and b: "map_of (m_mapClips playing_400) ''a'' = Some clip_400"
    by (simp_all add: playing_400_def)
  have c: "(1::int) mod getSampleCount clip_400 + 2 < getSampleCount clip_400"
    and d: "(2::int) \<le> int (length [7, - 2, 9 :: Int16])"
    by (simp_all add: getSampleCount_def clip_400_def)
  have "fits 7 (- 201)" and "fits (- 2) 302"
    by code_simp+
  then have e: "\<forall>i<nat 2. fits ([7, - 2, 9] ! i) (samples clip_400 ! (nat (1 mod getSampleCount clip_400) + i))"
    by (simp add: getSampleCount_def clip_400_def less_Suc_eq numeral_2_eq_2)
  have r: "rendered_inside [7, - 2, 9] (samples clip_400) (nat (1 mod getSampleCount clip_400)) 2 = [- 93, 149, 9]"
    by code_simp
  show ?thesis
    using GetAudio_inside_clip [OF a b _ _ _ _ c d e] by (simp add: r)
qed


section \<open>\<open>Track::GetAudio\<close> over the whole clip\<close>

lemma fits_zero: "fits 0 s"
  using trunc_half_range [of "sint s"] sint16_range [of s]
  by (simp add: fits_def Let_def del: of_int_sint)

lemma mixed_zero: "mixed 0 s = half s"
  by (simp add: mixed_def half_def del: of_int_sint)

lemma next_sample_none: "m_pPendingClip t = None \<Longrightarrow> next_sample t = Inr 0"
  by (simp add: next_sample_def)

lemma fade_weight_last:
  assumes "1 \<le> F"
  shows "fade_weight F F = 0"
proof -
  have "1 \<le> i2f F" using assms by (rule i2f_ge_one)
  then have "i2f F / i2f F = 1" by simp
  then show ?thesis
    by (simp add: fade_weight_def fsub_def fdiv_def f32_one f32_zero)
qed

lemma faded_last_silence: "1 \<le> F \<Longrightarrow> faded F F s 0 = 0"
  by (simp add: faded_def fade_weight_last crossfade_def ceilf_def fadd_def fmul_def fsub_def
    i2f_def f32_zero f32_one trunc_def)

lemma rendered_wrap_zero:
  assumes "0 \<le> F" and "F \<le> int (length src)"
  shows "rendered_wrap (replicate (length src) 0) src 0 (int (length src)) F 0 = rendered_full src F"
  unfolding rendered_wrap_def rendered_full_def
  by (rule map_cong) (simp_all add: mixed_zero)

text \<open>
  Claim C3, as the code has it.  For a track with an active clip of \<open>L\<close> samples, no
  pending clip and a fade length \<open>F\<close> with \<open>0 \<le> F \<le> L\<close>, the call that renders all \<open>L\<close>
  samples from position 0 into a zeroed buffer reaches the end of the clip and therefore
  takes the crossfade path: it returns true, the first \<open>L - F\<close> outputs are exactly the
  halved source samples, the last \<open>F\<close> outputs are crossfaded towards silence, and the
  track is left without an active clip.  With \<open>F > 0\<close> the last output is 0 whatever the
  source; only with \<open>F = 0\<close> is the output the halved source throughout.
\<close>

theorem GetAudio_full_length:
  assumes "m_pPendingTrack t = Some k" and "map_of (m_mapClips t) k = Some c"
    and "m_pPendingClip t = None"
    and "0 < getSampleCount c" and "getSampleCount c < 2 ^ 31"
    and "0 \<le> m_nFadeSamples t" and "m_nFadeSamples t \<le> getSampleCount c"
  shows "GetAudio t (Some (replicate (length (samples c)) 0)) (getSampleCount c) 0 =
      Inr (True, t\<lparr> m_pPendingTrack := None \<rparr>, Some (rendered_full (samples c) (m_nFadeSamples t)))
    \<and> (\<forall>x < nat (getSampleCount c - m_nFadeSamples t).
          rendered_full (samples c) (m_nFadeSamples t) ! x = half (samples c ! x))
    \<and> (0 < m_nFadeSamples t \<longrightarrow> last (rendered_full (samples c) (m_nFadeSamples t)) = 0)
    \<and> (m_nFadeSamples t = 0 \<longrightarrow> rendered_full (samples c) (m_nFadeSamples t) = map half (samples c))"
proof -
  define F where "F = m_nFadeSamples t"
  define src where "src = samples c"
  have L: "getSampleCount c = int (length src)"
    by (simp add: getSampleCount_def src_def)
  have len: "0 < length src" using assms(4) L by simp
  have "GetAudio t (Some (replicate (length src) 0)) (getSampleCount c) 0 =
      GetAudio_active t (replicate (length src) 0) (getSampleCount c) 0"
    using assms(1) by (rule GetAudio_with_active)
  also have "\<dots> = Inr (True, t\<lparr> m_pPendingTrack := m_pPendingClip t \<rparr>,
      Some (rendered_wrap (replicate (length src) 0) (samples c) (nat (0 mod getSampleCount c))
        (getSampleCount c) (m_nFadeSamples t) 0))"
  proof (rule GetAudio_active_boundary [OF assms(1,2) _ _ assms(5,4) _ assms(6,7) _ _ next_sample_none [OF assms(3)]])
    show "\<forall>i<nat (getSampleCount c - m_nFadeSamples t).
        fits (replicate (length src) 0 ! i) (samples c ! (nat (0 mod getSampleCount c) + i))"
      using assms(6) by (simp add: L fits_zero)
  qed (simp_all add: L)
  also have "rendered_wrap (replicate (length src) 0) (samples c) (nat (0 mod getSampleCount c))
        (getSampleCount c) (m_nFadeSamples t) 0 = rendered_full src F"
    using rendered_wrap_zero [of F src] assms(6,7) by (simp add: L F_def src_def [symmetric])
  finally have run: "GetAudio t (Some (replicate (length src) 0)) (getSampleCount c) 0 =
      Inr (True, t\<lparr> m_pPendingTrack := None \<rparr>, Some (rendered_full src F))"
    by (simp add: assms(3))
  have first: "\<forall>x < nat (int (length src) - F). rendered_full src F ! x = half (src ! x)"
    using assms(6) by (simp add: rendered_full_def F_def)
  have lastz: "last (rendered_full src F) = 0" if "0 < F"
  proof -
    have ne: "rendered_full src F \<noteq> []" using len by (simp add: rendered_full_def)
    have ix: "1 + int (length src - 1 - nat (int (length src) - F)) = F"
      using that assms(7) len by (simp add: L F_def)
    have "last (rendered_full src F) = rendered_full src F ! (length src - 1)"
      using ne by (simp add: last_conv_nth rendered_full_def)
    also have "\<dots> = faded F F (src ! (length src - 1)) 0"
    proof -
      have "\<not> length src - 1 < nat (int (length src) - F)"
        using that len by linarith
      moreover have "length src - 1 < length src" using len by simp
      ultimately have "rendered_full src F ! (length src - 1) =
          faded F (1 + int (length src - 1 - nat (int (length src) - F))) (src ! (length src - 1)) 0"
        by (simp add: rendered_full_def)
      then show ?thesis by (simp only: ix)
    qed
    also have "\<dots> = 0" using that by (intro faded_last_silence) simp
    finally show ?thesis .
  qed
  have nofade: "rendered_full src F = map half src" if "F = 0"
    using that by (auto simp: rendered_full_def intro!: nth_equalityI)
  show ?thesis
    using run first lastz nofade by (simp add: L F_def src_def)
qed

theorem GetAudio_full_length_witness:
  "GetAudio solo_400 (Some (replicate 4 0)) 4 0 =
      Inr (True, solo_400\<lparr> m_pPendingTrack := None \<rparr>, Some (rendered_full (samples clip_400) 2))
   \<and> rendered_full (samples clip_400) 2 ! 0 = 50
   \<and> rendered_full (samples clip_400) 2 ! 1 = - 100
   \<and> last (rendered_full (samples clip_400) 2) = 0"
proof -
  have t: "solo_400 = \<lparr> m_nFadeSamples = 2, m_nSampleCount = 4, m_mapClips = [(''a'', clip_400)],
     m_pPendingTrack = Some ''a'', m_pPendingClip = None \<rparr>"
    by code_simp
  have a: "m_pPendingTrack solo_400 = Some ''a''"
    and b: "map_of (m_mapClips solo_400) ''a'' = Some clip_400"
    and c: "m_pPendingClip solo_400 = None"
    and f: "m_nFadeSamples solo_400 = 2"
    by (simp_all add: t)
  have l: "getSampleCount clip_400 = 4" "length (samples clip_400) = 4"
    by (simp_all add: getSampleCount_def clip_400_def)
  have h: "half 100 = 50" "half (- 201) = - 100"
    by code_simp+
  have th: "GetAudio solo_400 (Some (replicate 4 0)) 4 0 =
      Inr (True, solo_400\<lparr> m_pPendingTrack := None \<rparr>, Some (rendered_full (samples clip_400) 2))
    \<and> (\<forall>x<2. rendered_full (samples clip_400) 2 ! x = half (samples clip_400 ! x))
    \<and> last (rendered_full (samples clip_400) 2) = 0"
    using GetAudio_full_length [OF a b c] by (simp add: l f)
  then have "rendered_full (samples clip_400) 2 ! 0 = half (samples clip_400 ! 0)"
    and "rendered_full (samples clip_400) 2 ! 1 = half (samples clip_400 ! 1)"
    by simp_all
  then have "rendered_full (samples clip_400) 2 ! 0 = 50"
    and "rendered_full (samples clip_400) 2 ! 1 = - 100"
    by (simp_all add: clip_400_def h)
  then show ?thesis using th by simp
qed

text \<open>
  The claim as stated fails: a clip of four samples with fade length 2, rendered in full
  with nothing pending, gives \<open>[50, -100, 76, 0]\<close>, not the halved source
  \<open>[50, -100, 151, 200]\<close>, and the active clip is gone.
\<close>

theorem GetAudio_full_length_fades:
  "GetAudio solo_400 (Some [0, 0, 0, 0]) 4 0 =
      Inr (True, solo_400\<lparr> m_pPendingTrack := None \<rparr>, Some [50, - 100, 76, 0])
   \<and> map half (samples clip_400) = [50, - 100, 151, 200]"
  by code_simp


section \<open>The crossfaded samples\<close>

lemma clamp16_id: "- 32768 \<le> x \<Longrightarrow> x \<le> 32767 \<Longrightarrow> clamp16 x = x"
  by (simp add: clamp16_def)

text \<open>
  Claim C8.  In a call whose window ends at the end of the active clip, every index \<open>i\<close> of
  the crossfade segment (the last \<open>F\<close> of the \<open>n\<close> samples) receives the old entry plus
  the ceiling of the weighted sum \<open>a * val + (1 - a) * nextSample\<close>, where \<open>a\<close> is the fade
  weight of the iteration, \<open>val\<close> the halved active sample and \<open>nextSample\<close> the first
  sample of the pending clip, and where the sum is the single-precision value the code
  computes: each product and the sum are rounded, \<open>1 - a\<close> is exact.  The ceiling always
  lies in the range of \<open>sf::Int16\<close>, so the conversion is defined and agrees with clamping.
\<close>

theorem crossfade_value_is_ceiling:
  assumes "m_pPendingTrack t = Some k" and "map_of (m_mapClips t) k = Some c"
    and "0 \<le> pos" and "pos < 2 ^ 31" and "n < 2 ^ 31"
    and "0 < getSampleCount c"
    and "pos mod getSampleCount c + n = getSampleCount c"
    and "0 \<le> m_nFadeSamples t" and "m_nFadeSamples t \<le> n"
    and "n \<le> int (length mix)"
    and "\<forall>i<nat (n - m_nFadeSamples t). fits (mix ! i) (samples c ! (nat (pos mod getSampleCount c) + i))"
    and "next_sample t = Inr nextSample"
    and "nat (n - m_nFadeSamples t) \<le> i" and "i < nat n"
  shows "GetAudio t (Some mix) n pos =
      Inr (True, t\<lparr> m_pPendingTrack := m_pPendingClip t \<rparr>,
        Some (rendered_wrap mix (samples c) (nat (pos mod getSampleCount c)) n (m_nFadeSamples t) nextSample))
    \<and> (let a = fade_weight (1 + int (i - nat (n - m_nFadeSamples t))) (m_nFadeSamples t);
            val = half (samples c ! (nat (pos mod getSampleCount c) + i));
            wsum = fadd (fmul a (i2f (sint val))) (fmul (fsub 1 a) (i2f (sint nextSample)))
        in rendered_wrap mix (samples c) (nat (pos mod getSampleCount c)) n (m_nFadeSamples t) nextSample ! i =
             mix ! i + word_of_int (clamp16 \<lceil>wsum\<rceil>)
           \<and> - 32768 \<le> \<lceil>wsum\<rceil> \<and> \<lceil>wsum\<rceil> \<le> 32767
           \<and> wsum = f32 (f32 (a * of_int (sint val)) + f32 ((1 - a) * of_int (sint nextSample))))"
proof -
  define F where "F = m_nFadeSamples t"
  define off where "off = nat (pos mod getSampleCount c)"
  define j where "j = 1 + int (i - nat (n - F))"
  define a where "a = fade_weight j F"
  define val where "val = half (samples c ! (off + i))"
  define wsum where "wsum = fadd (fmul a (i2f (sint val))) (fmul (fsub 1 a) (i2f (sint nextSample)))"
  have "GetAudio t (Some mix) n pos = GetAudio_active t mix n pos"
    using assms(1) by (rule GetAudio_with_active)
  also have "\<dots> = Inr (True, t\<lparr> m_pPendingTrack := m_pPendingClip t \<rparr>,
        Some (rendered_wrap mix (samples c) (nat (pos mod getSampleCount c)) n (m_nFadeSamples t) nextSample))"
    using assms(1-12) by (rule GetAudio_active_boundary)
  finally have run: "GetAudio t (Some mix) n pos =
      Inr (True, t\<lparr> m_pPendingTrack := m_pPendingClip t \<rparr>, Some (rendered_wrap mix (samples c) off n F nextSample))"
    by (simp only: F_def off_def)
  have j: "1 \<le> j" "j \<le> F"
    using assms(13,14) assms(8,9) by (simp_all add: j_def F_def)
  obtain m where m: "a = of_int m / 2 ^ 24" "0 \<le> m" "m \<le> 2 ^ 24"
    using fade_weight_grid [OF j] unfolding a_def by blast
  have range: "- 32768 \<le> \<lceil>wsum\<rceil>" "\<lceil>wsum\<rceil> \<le> 32767"
    using crossfade_range [OF m sint_half, of "samples c ! (off + i)" nextSample]
    by (simp_all add: wsum_def val_def)
  have "i < length mix" using assms(10,14) by simp
  then have "rendered_wrap mix (samples c) off n F nextSample ! i =
      mix ! i + faded F j (samples c ! (off + i)) nextSample"
    using assms(13,14) by (simp add: rendered_wrap_def F_def j_def)
  also have "faded F j (samples c ! (off + i)) nextSample = word_of_int \<lceil>wsum\<rceil>"
    by (simp add: faded_def crossfade_def ceilf_def trunc_of_int wsum_def a_def val_def)
  also have "\<lceil>wsum\<rceil> = clamp16 \<lceil>wsum\<rceil>"
    using range by (simp add: clamp16_id)
  finally have added: "rendered_wrap mix (samples c) off n F nextSample ! i =
      mix ! i + word_of_int (clamp16 \<lceil>wsum\<rceil>)" .
  have "fsub 1 a = 1 - a"
    unfolding m(1) using m(2,3) by (rule fsub_one_grid)
  then have explicit: "wsum = f32 (f32 (a * of_int (sint val)) + f32 ((1 - a) * of_int (sint nextSample)))"
    by (simp only: wsum_def fadd_def fmul_def i2f_sint16)
  show ?thesis
    using run added range explicit
    unfolding Let_def wsum_def val_def a_def j_def off_def F_def by (intro conjI)
qed

theorem crossfade_value_is_ceiling_witness:
  "GetAudio playing_400 (Some [0, 0]) 2 2 =
      Inr (True, playing_400, Some (rendered_wrap [0, 0] (samples clip_400) 2 2 2 100))
   \<and> rendered_wrap [0, 0] (samples clip_400) 2 2 2 100 ! 0 = 126
   \<and> f32 (f32 (1 / 2 * 151) + f32 ((1 - 1 / 2) * 100)) = 251 / 2"
proof -
  have a: "m_pPendingTrack playing_400 = Some ''a''"
    and b: "map_of (m_mapClips playing_400) ''a'' = Some clip_400"
    and f: "m_nFadeSamples playing_400 = 2"
    and p: "playing_400\<lparr> m_pPendingTrack := m_pPendingClip playing_400 \<rparr> = playing_400"
    by (simp_all add: playing_400_def)
  have l: "getSampleCount clip_400 = 4"
    by (simp add: getSampleCount_def clip_400_def)
  have nx: "next_sample playing_400 = Inr 100"
    by code_simp
  have v: "fade_weight 1 2 = 1 / 2" "half (samples clip_400 ! 2) = 151"
    "sint (151 :: Int16) = 151" "sint (100 :: Int16) = 100"
    "f32 (f32 (151 / 2) + f32 50) = 251 / 2"
    "fadd (fmul (1 / 2) (i2f 151)) (fmul (fsub 1 (1 / 2)) (i2f 100)) = 251 / 2"
    "\<lceil>251 / 2 :: rat\<rceil> = 126"
    by code_simp+
  have "GetAudio playing_400 (Some [0, 0]) 2 2 =
      Inr (True, playing_400, Some (rendered_wrap [0, 0] (samples clip_400) 2 2 2 100))
    \<and> rendered_wrap [0, 0] (samples clip_400) 2 2 2 100 ! 0 = 0 + word_of_int (clamp16 \<lceil>251 / 2 :: rat\<rceil>)"
    using crossfade_value_is_ceiling [OF a b _ _ _ _ _ _ _ _ _ nx, of 2 2 "[0, 0]" 0]
    by (simp add: l f p v Let_def del: of_int_sint)
  then show ?thesis by (simp add: clamp16_def v)
qed

section \<open>\<open>LoopLauncher::postPendingTracks\<close> and the clip named \<open>silence\<close>\<close>

lemma map_of_map_modify:
  "map_of (map_modify k' f m) k = (if k = k' then map_option f (map_of m k) else map_of m k)"
  by (induction m) auto

lemma map_of_post_unrequested:
  assumes "name \<notin> fst ` set staged"
  shows "map_of (foldl (\<lambda>m (tn, clip). map_modify tn (g clip) m) m staged) name = map_of m name"
  using assms
proof (induction staged arbitrary: m)
  case Nil
  then show ?case by simp
next
  case (Cons p staged)
  obtain tn clip where p: "p = (tn, clip)" by (cases p)
  with Cons.prems have "name \<noteq> tn" and "name \<notin> fst ` set staged" by auto
  then show ?case
    using Cons.IH [of "map_modify tn (g clip) m"] by (simp add: p map_of_map_modify)
qed

lemma SetPendingTrack_has:
  "HasClip t name \<Longrightarrow> SetPendingTrack t name = (True, t\<lparr> m_pPendingClip := Some name \<rparr>)"
  by (auto simp: SetPendingTrack_def HasClip_def)

lemma postPendingTracks_unrequested:
  assumes "map_of (m_mapTracks ll) name = Some t"
    and "map_of (m_mapPendingTracks ll) name = None"
  shows "map_of (m_mapTracks (postPendingTracks ll)) name = Some (snd (SetPendingTrack t ''silence''))"
proof -
  have "name \<notin> fst ` set (m_mapPendingTracks ll)"
    using assms(2) by (simp add: map_of_eq_None_iff)
  then have "map_of (m_mapTracks (postPendingTracks ll)) name =
      map_of (map (\<lambda>(name, t). (name, snd (SetPendingTrack t ''silence''))) (m_mapTracks ll)) name"
    unfolding postPendingTracks_def Let_def
    using map_of_post_unrequested [of name "m_mapPendingTracks ll" "\<lambda>clip t. snd (SetPendingTrack t clip)"]
    by simp
  also have "\<dots> = map_option (\<lambda>t. snd (SetPendingTrack t ''silence'')) (map_of (m_mapTracks ll) name)"
    by (simp add: map_of_map)
  finally show ?thesis by (simp add: assms(1))
qed

lemma GetAudio_active_promotes:
  assumes "GetAudio_active t mix n pos = Inr (ok, t', pMix)"
    and "deref (m_mapClips t) (m_pPendingTrack t) = Inr c"
    and "crosses_end c n pos"
  shows "ok \<and> t' = t\<lparr> m_pPendingTrack := m_pPendingClip t \<rparr>"
  using assms
  by (auto simp: GetAudio_active_def Let_def split: sum.splits if_splits)

text \<open>
  Claim C10.  \<open>postPendingTracks\<close> silences a track by asking it for the clip named
  \<open>silence\<close>, which works only when the lookup fails.  For a track \<open>t\<close> of the launcher
  that has a clip of that name and no request staged, the track after \<open>postPendingTracks\<close>
  is \<open>t\<close> with that clip pending; and every call of \<open>GetAudio\<close> on it that reaches the end
  of the clip it plays and completes returns true with the clip \<open>silence\<close> as active and
  as pending clip.
\<close>

theorem silence_clip_is_promoted:
  assumes "map_of (m_mapTracks ll) name = Some t"
    and "HasClip t ''silence''"
    and "map_of (m_mapPendingTracks ll) name = None"
    and "GetAudio (t\<lparr> m_pPendingClip := Some ''silence'' \<rparr>) (Some mix) n pos = Inr (ok, t', pMix)"
    and "deref (m_mapClips t) (case m_pPendingTrack t of None \<Rightarrow> Some ''silence'' | Some k \<Rightarrow> Some k) = Inr c"
    and "crosses_end c n pos"
  shows "map_of (m_mapTracks (postPendingTracks ll)) name = Some (t\<lparr> m_pPendingClip := Some ''silence'' \<rparr>)
    \<and> ok
    \<and> m_pPendingTrack t' = Some ''silence''
    \<and> m_pPendingClip t' = Some ''silence''"
proof -
  define posted' where "posted' = t\<lparr> m_pPendingClip := Some ''silence'' \<rparr>"
  have post: "map_of (m_mapTracks (postPendingTracks ll)) name = Some posted'"
    using postPendingTracks_unrequested [OF assms(1,3)] SetPendingTrack_has [OF assms(2)]
    by (simp add: posted'_def)
  define started where "started = (case m_pPendingTrack t of None \<Rightarrow> posted'\<lparr> m_pPendingTrack := Some ''silence'' \<rparr>
     | Some k \<Rightarrow> posted')"
  have run: "GetAudio posted' (Some mix) n pos = Inr (ok, t', pMix)"
    using assms(4) by (simp add: posted'_def)
  have "GetAudio posted' (Some mix) n pos = GetAudio_active started mix n pos"
    by (cases "m_pPendingTrack t") (simp_all add: GetAudio_def posted'_def started_def)
  then have act: "GetAudio_active started mix n pos = Inr (ok, t', pMix)"
    using run by simp
  have d: "deref (m_mapClips started) (m_pPendingTrack started) = Inr c"
    using assms(5) by (cases "m_pPendingTrack t") (simp_all add: started_def posted'_def)
  have "ok \<and> t' = started\<lparr> m_pPendingTrack := m_pPendingClip started \<rparr>"
    using act d assms(6) by (rule GetAudio_active_promotes)
  then show ?thesis
    using post by (cases "m_pPendingTrack t") (simp_all add: started_def posted'_def)
qed


theorem silence_clip_is_promoted_witness:
  "map_of (m_mapTracks (postPendingTracks launcher_two)) ''drums'' =
      Some (playing_two\<lparr> m_pPendingClip := Some ''silence'' \<rparr>)
   \<and> GetAudio (playing_two\<lparr> m_pPendingClip := Some ''silence'' \<rparr>) (Some [0, 0]) 2 2 =
      Inr (True, playing_two\<lparr> m_pPendingTrack := Some ''silence'', m_pPendingClip := Some ''silence'' \<rparr>,
        Some [76, 0])"
proof -
  have a: "map_of (m_mapTracks launcher_two) ''drums'' = Some playing_two"
    and b: "HasClip playing_two ''silence''"
    and c: "map_of (m_mapPendingTracks launcher_two) ''drums'' = None"
    and d: "deref (m_mapClips playing_two)
        (case m_pPendingTrack playing_two of None \<Rightarrow> Some ''silence'' | Some k \<Rightarrow> Some k) = Inr clip_400"
    and e: "crosses_end clip_400 2 2"
    by code_simp+
  have run: "GetAudio (playing_two\<lparr> m_pPendingClip := Some ''silence'' \<rparr>) (Some [0, 0]) 2 2 =
      Inr (True, playing_two\<lparr> m_pPendingTrack := Some ''silence'', m_pPendingClip := Some ''silence'' \<rparr>,
        Some [76, 0])"
    by code_simp
  show ?thesis
    using silence_clip_is_promoted [OF a b c run d e] run by simp
qed

section \<open>\<open>LoopLauncher::Initialize\<close>\<close>

lemma Min_insert_min:
  assumes "finite S"
  shows "Min (insert (min a b) S) = Min (insert a (insert b S))"
proof (cases "S = {}")
  case True
  then show ?thesis by (simp add: min.commute)
next
  case False
  then show ?thesis using assms by (simp add: min.assoc)
qed

lemma foldl_min_Min:
  "foldl (\<lambda>a (name, t). min a (g t)) a0 xs = Min (insert a0 (g ` snd ` set xs))"
proof (induction xs arbitrary: a0)
  case Nil
  then show ?case by simp
next
  case (Cons p xs)
  obtain name t where p: "p = (name, t)" by (cases p)
  have "Min (insert (min a0 (g t)) (g ` snd ` set xs)) = Min (insert a0 (insert (g t) (g ` snd ` set xs)))"
    by (rule Min_insert_min) simp
  then show ?case by (simp add: Cons.IH p)
qed

lemma i32_le: "i32 x \<le> INT_MAX"
proof -
  have "(x + 2 ^ 31) mod 2 ^ 32 < (2 ^ 32 :: int)" by simp
  then show ?thesis by (simp add: i32_def INT_MAX_def)
qed

lemma GetSampleCount_le: "GetSampleCount t \<le> INT_MAX"
proof -
  have "1 \<le> INT_MAX" by (simp add: INT_MAX_def)
  then show ?thesis
    by (auto simp: GetSampleCount_def i32_le split: list.splits)
qed

lemma min_sample_count_Min:
  assumes "tracks \<noteq> []"
  shows "min_sample_count tracks = Min (GetSampleCount ` snd ` set tracks)"
proof -
  define S where "S = GetSampleCount ` snd ` set tracks"
  have fin: "finite S" and ne: "S \<noteq> {}"
    using assms by (simp_all add: S_def)
  have "Min S \<in> S" using fin ne by (rule Min_in)
  then have "Min S \<le> INT_MAX" using GetSampleCount_le by (auto simp: S_def)
  moreover have "min_sample_count tracks = Min (insert INT_MAX S)"
    unfolding min_sample_count_def S_def by (rule foldl_min_Min)
  ultimately have "min_sample_count tracks = min INT_MAX (Min S)" "Min S \<le> INT_MAX"
    using Min_insert [OF fin ne, of INT_MAX] by simp_all
  then show ?thesis by (simp add: S_def)
qed

lemma resize_length: "0 \<le> k \<Longrightarrow> \<exists>v'. resize k v = Inr v' \<and> length v' = nat k"
  by (auto simp: resize_def)

lemma int_div_nonneg: "0 \<le> a \<Longrightarrow> int_div a 64 = a div 64"
  by (simp add: int_div_def)

text \<open>
  Claim C5.  \<open>Initialize\<close> returns false exactly when the track map, after the tracks of
  the argument have been emplaced, is empty, and it then leaves the mix buffer alone.
  Otherwise it returns true and the mix buffer has (minimum of \<open>GetSampleCount\<close> over all
  tracks) div 64 entries, which is 689 when every track reports 44100 samples.  The
  hypothesis excludes clips of \<open>2 ^ 31\<close> samples or more, whose count is negative as an
  \<open>int\<close>.
\<close>

theorem Initialize_result:
  assumes "\<forall>(name, t) \<in> set (emplace_tracks fs mapTracks (m_mapTracks ll)). 0 \<le> GetSampleCount t"
  shows "\<exists>ll'. Initialize fs ll mapTracks = Inr (emplace_tracks fs mapTracks (m_mapTracks ll) \<noteq> [], ll')
    \<and> m_mapTracks ll' = emplace_tracks fs mapTracks (m_mapTracks ll)
    \<and> (m_mapTracks ll' = [] \<longrightarrow> m_vMixBuffer ll' = m_vMixBuffer ll)
    \<and> (m_mapTracks ll' \<noteq> [] \<longrightarrow>
          length (m_vMixBuffer ll') = nat (Min (GetSampleCount ` snd ` set (m_mapTracks ll')) div 64))
    \<and> (m_mapTracks ll' \<noteq> [] \<and> (\<forall>(name, t) \<in> set (m_mapTracks ll'). GetSampleCount t = 44100) \<longrightarrow>
          length (m_vMixBuffer ll') = 689)"
proof (cases "emplace_tracks fs mapTracks (m_mapTracks ll) = []")
  case True
  then show ?thesis by (simp add: Initialize_def Let_def)
next
  case False
  define tracks where "tracks = emplace_tracks fs mapTracks (m_mapTracks ll)"
  define S where "S = GetSampleCount ` snd ` set tracks"
  have ne: "tracks \<noteq> []" using False by (simp add: tracks_def)
  have fin: "finite S" and Sne: "S \<noteq> {}" using ne by (simp_all add: S_def)
  have mn: "min_sample_count tracks = Min S"
    unfolding S_def using ne by (rule min_sample_count_Min)
  have "Min S \<in> S" using fin Sne by (rule Min_in)
  then have nonneg: "0 \<le> Min S"
    using assms by (auto simp: S_def tracks_def)
  then obtain v' where v': "resize (int_div (Min S) 64) (m_vMixBuffer ll) = Inr v'"
      "length v' = nat (Min S div 64)"
    using resize_length [of "Min S div 64" "m_vMixBuffer ll"]
    by (auto simp: int_div_nonneg pos_imp_zdiv_nonneg_iff)
  have all44100: "Min S = 44100" if "\<forall>(name, t) \<in> set tracks. GetSampleCount t = 44100"
  proof -
    obtain p where p: "p \<in> set tracks" using ne by (cases tracks) auto
    then have "GetSampleCount (snd p) = 44100" using that by (cases p) auto
    then have in_S: "44100 \<in> S" using p by (force simp: S_def)
    have "44100 \<le> y" if "y \<in> S" for y
      using that \<open>\<forall>(name, t) \<in> set tracks. GetSampleCount t = 44100\<close> by (auto simp: S_def)
    then show ?thesis using fin in_S by (intro Min_eqI)
  qed
  define ll' where "ll' = ll\<lparr> m_mapTracks := tracks,
      m_nMaxSampleCount := max_sample_count (m_nMaxSampleCount ll) tracks, m_vMixBuffer := v' \<rparr>"
  have run: "Initialize fs ll mapTracks = Inr (True, ll')"
    using ne v'(1) mn unfolding ll'_def tracks_def S_def by (simp add: Initialize_def Let_def)
  have sel: "m_mapTracks ll' = tracks" "m_vMixBuffer ll' = v'"
    by (simp_all add: ll'_def)
  have len: "length (m_vMixBuffer ll') = nat (Min (GetSampleCount ` snd ` set (m_mapTracks ll')) div 64)"
    using v'(2) by (simp only: sel S_def)
  have cd: "length (m_vMixBuffer ll') = 689" if "\<forall>(name, t) \<in> set (m_mapTracks ll'). GetSampleCount t = 44100"
    using all44100 that v'(2) by (simp add: sel)
  show ?thesis
  proof (intro exI [of _ ll'] conjI impI)
    show "Initialize fs ll mapTracks = Inr (emplace_tracks fs mapTracks (m_mapTracks ll) \<noteq> [], ll')"
      using run False by simp
    show "m_mapTracks ll' = emplace_tracks fs mapTracks (m_mapTracks ll)"
      by (simp only: sel tracks_def)
    show "m_vMixBuffer ll' = m_vMixBuffer ll" if "m_mapTracks ll' = []"
      using that ne by (simp add: sel)
    show "length (m_vMixBuffer ll') = nat (Min (GetSampleCount ` snd ` set (m_mapTracks ll')) div 64)"
      by (rule len)
    show "length (m_vMixBuffer ll') = 689"
      if "m_mapTracks ll' \<noteq> [] \<and> (\<forall>(name, t) \<in> set (m_mapTracks ll'). GetSampleCount t = 44100)"
      using that cd by simp
  qed
qed


theorem Initialize_result_witness:
  "\<exists>ll'. Initialize cd_fs LoopLauncher_default cd_tracks = Inr (True, ll')
     \<and> map fst (m_mapTracks ll') = [''bass'', ''drums'']
     \<and> length (m_vMixBuffer ll') = 689"
proof -
  have clip: "getSampleCount clip_cd = 44100" "sampleRate clip_cd = 44100"
    by (simp_all add: getSampleCount_def clip_cd_def)
  have fade: "trunc (fmul 5 (fdiv (i2f 44100) 1000)) = 220"
    by code_simp
  have fs: "cd_fs ''a'' = Some clip_cd" "cd_fs ''b'' = Some clip_cd" "cd_fs ''x'' = Some clip_cd"
    by (simp_all add: cd_fs_def)
  have bass: "Track_of_files cd_fs [''x''] = \<lparr> m_nFadeSamples = 220, m_nSampleCount = 44100,
      m_mapClips = [(''x'', clip_cd)], m_pPendingTrack = None, m_pPendingClip = None \<rparr>"
    by (simp add: Track_of_files_def AddClip_def Track_default_def fs clip fade i32_def Let_def)
  have drums: "Track_of_files cd_fs [''a'', ''b''] = \<lparr> m_nFadeSamples = 220, m_nSampleCount = 44100,
      m_mapClips = [(''a'', clip_cd), (''b'', clip_cd)], m_pPendingTrack = None, m_pPendingClip = None \<rparr>"
    by (simp add: Track_of_files_def AddClip_def Track_default_def fs clip fade i32_def Let_def)
  have tracks: "emplace_tracks cd_fs cd_tracks (m_mapTracks LoopLauncher_default) =
      [(''bass'', Track_of_files cd_fs [''x'']), (''drums'', Track_of_files cd_fs [''a'', ''b''])]"
    by (simp add: emplace_tracks_def cd_tracks_def LoopLauncher_default_def)
  have count: "GetSampleCount (Track_of_files cd_fs [''x'']) = 44100"
    "GetSampleCount (Track_of_files cd_fs [''a'', ''b'']) = 44100"
    by (simp_all add: bass drums GetSampleCount_def clip i32_def)
  have hyp: "\<forall>(name, t) \<in> set (emplace_tracks cd_fs cd_tracks (m_mapTracks LoopLauncher_default)).
      0 \<le> GetSampleCount t"
    by (simp add: tracks count)
  show ?thesis
    using Initialize_result [OF hyp] by (auto simp: tracks count)
qed

section \<open>A track without clips\<close>

lemma Track_without_clips:
  "m_mapClips t = [] \<Longrightarrow> GetSampleCount t = 1 \<and> GetSampleRate t = 1 \<and> GetChannelCount t = 1"
  by (simp add: GetSampleCount_def GetSampleRate_def GetChannelCount_def)

lemma onGetData_empty: "m_vMixBuffer s = [] \<Longrightarrow> onGetData s = Inr (False, s)"
  by (simp add: onGetData_def)

text \<open>
  Claim C9.  A track without clips reports 1 for sample count, sample rate and channel
  count.  When the track map that \<open>Initialize\<close> builds contains such a track, and the
  other tracks report at least one sample (a loaded clip is never empty), the minimum
  sample count is 1, the mix buffer is resized to \<open>1 / 64 = 0\<close> entries and \<open>Initialize\<close>
  returns true.  \<open>onGetData\<close> then returns false and leaves the launcher as it is, as it
  does in every state with an empty mix buffer, so every later callback fails too.
\<close>

theorem Initialize_with_empty_track:
  assumes "(name, t) \<in> set (emplace_tracks fs mapTracks (m_mapTracks ll))"
    and "m_mapClips t = []"
    and "\<forall>(name, t) \<in> set (emplace_tracks fs mapTracks (m_mapTracks ll)). 1 \<le> GetSampleCount t"
  shows "GetSampleCount t = 1 \<and> GetSampleRate t = 1 \<and> GetChannelCount t = 1
    \<and> min_sample_count (emplace_tracks fs mapTracks (m_mapTracks ll)) = 1
    \<and> (\<exists>ll'. Initialize fs ll mapTracks = Inr (True, ll')
          \<and> m_vMixBuffer ll' = []
          \<and> onGetData ll' = Inr (False, ll'))
    \<and> (\<forall>s. m_vMixBuffer s = [] \<longrightarrow> onGetData s = Inr (False, s))"
proof -
  define tracks where "tracks = emplace_tracks fs mapTracks (m_mapTracks ll)"
  define S where "S = GetSampleCount ` snd ` set tracks"
  have one: "GetSampleCount t = 1 \<and> GetSampleRate t = 1 \<and> GetChannelCount t = 1"
    using assms(2) by (rule Track_without_clips)
  have mem: "(name, t) \<in> set tracks" using assms(1) by (simp add: tracks_def)
  then have ne: "tracks \<noteq> []" by auto
  have fin: "finite S" by (simp add: S_def)
  have in_S: "1 \<in> S" using mem one by (force simp: S_def)
  have "1 \<le> y" if "y \<in> S" for y
    using that assms(3) by (auto simp: S_def tracks_def)
  then have "Min S = 1" using fin in_S by (intro Min_eqI)
  then have mn: "min_sample_count tracks = 1"
    using min_sample_count_Min [OF ne] by (simp add: S_def)
  have rs: "resize (int_div 1 64) (m_vMixBuffer ll) = Inr []"
    by (simp add: resize_def int_div_def)
  define ll' where "ll' = ll\<lparr> m_mapTracks := tracks,
      m_nMaxSampleCount := max_sample_count (m_nMaxSampleCount ll) tracks, m_vMixBuffer := [] \<rparr>"
  have run: "Initialize fs ll mapTracks = Inr (True, ll')"
    using ne mn rs unfolding ll'_def tracks_def by (simp add: Initialize_def Let_def)
  have empty: "m_vMixBuffer ll' = []" by (simp add: ll'_def)
  then have "onGetData ll' = Inr (False, ll')" by (rule onGetData_empty)
  then have "\<exists>ll'. Initialize fs ll mapTracks = Inr (True, ll')
      \<and> m_vMixBuffer ll' = [] \<and> onGetData ll' = Inr (False, ll')"
    using run empty by blast
  then show ?thesis
    using one mn onGetData_empty by (simp add: tracks_def)
qed

theorem Initialize_with_empty_track_witness:
  "GetSampleCount Track_default = 1
   \<and> min_sample_count (emplace_tracks demo_fs ghost_tracks []) = 1
   \<and> (\<exists>ll'. Initialize demo_fs LoopLauncher_default ghost_tracks = Inr (True, ll')
         \<and> m_vMixBuffer ll' = []
         \<and> onGetData ll' = Inr (False, ll'))"
proof -
  have a: "(''ghost'', Track_default) \<in> set (emplace_tracks demo_fs ghost_tracks (m_mapTracks LoopLauncher_default))"
    and b: "m_mapClips Track_default = []"
    and c: "\<forall>(name, t) \<in> set (emplace_tracks demo_fs ghost_tracks (m_mapTracks LoopLauncher_default)).
      1 \<le> GetSampleCount t"
    and d: "m_mapTracks LoopLauncher_default = []"
    by code_simp+
  show ?thesis
    using Initialize_with_empty_track [OF a b c] by (simp add: d)
qed

section \<open>A window that ends at the end of the clip\<close>

lemma fade_weight_unit:
  assumes "1 \<le> j" and "j \<le> F"
  shows "0 \<le> fade_weight j F" and "fade_weight j F \<le> 1"
proof -
  obtain m where m: "fade_weight j F = of_int m / 2 ^ 24" "0 \<le> m" "m \<le> 2 ^ 24"
    using fade_weight_grid [OF assms] by blast
  have "(of_int m :: rat) \<le> of_int (2 ^ 24)"
    using m(3) by (simp only: of_int_le_iff)
  then show "0 \<le> fade_weight j F" and "fade_weight j F \<le> 1"
    using m(2) by (simp_all add: m(1))
qed

lemma fade_weight_antimono:
  assumes "1 \<le> j" and "j \<le> j'" and "j' \<le> F"
  shows "fade_weight j' F \<le> fade_weight j F"
proof -
  have F: "0 < i2f F" using i2f_ge_one [of F] assms by simp
  have "i2f j \<le> i2f j'" using assms(2) by (rule i2f_mono)
  then have "i2f j / i2f F \<le> i2f j' / i2f F"
    using F by (simp add: divide_right_mono)
  then have "f32 (i2f j / i2f F) \<le> f32 (i2f j' / i2f F)" by (rule f32_mono)
  then have "1 - f32 (i2f j' / i2f F) \<le> 1 - f32 (i2f j / i2f F)" by simp
  then show ?thesis
    unfolding fade_weight_def fsub_def fdiv_def by (rule f32_mono)
qed

lemma f32_unit_error:
  assumes "0 \<le> x" and "x \<le> 1"
  shows "\<bar>f32 x - x\<bar> \<le> 1 / 2 ^ 25"
proof (cases "x = 1")
  case True
  then show ?thesis by (simp add: f32_one)
next
  case False
  then have "\<bar>x\<bar> < 2 powi 0" using assms by simp
  then have "\<bar>f32 x - x\<bar> \<le> 2 powi (0 - 25)" by (rule f32_abs_error)
  moreover have "(2::rat) powi (0 - 25) = 1 / 2 ^ 25"
    by (simp add: power_int_minus field_simps)
  ultimately show ?thesis by (simp only:)
qed

lemma f32_unit_bounds:
  assumes "0 \<le> x" and "x \<le> 1"
  shows "x - 1 / 33554432 \<le> f32 x" and "f32 x \<le> x + 1 / 33554432"
proof -
  have "\<bar>f32 x - x\<bar> \<le> 1 / 33554432"
    using f32_unit_error [OF assms] by simp
  then show "x - 1 / 33554432 \<le> f32 x" and "f32 x \<le> x + 1 / 33554432"
    by linarith+
qed

lemma f32_strict:
  assumes "0 \<le> x" and "y \<le> 1" and "x + 1 / 2 ^ 24 < y"
  shows "f32 x < f32 y"
proof -
  have "x \<le> 1" "0 \<le> y" using assms by simp_all
  then have "f32 x \<le> x + 1 / 33554432" "y - 1 / 33554432 \<le> f32 y"
    using assms by (simp_all add: f32_unit_bounds)
  moreover have "x + 1 / 16777216 < y" using assms(3) by simp
  ultimately show ?thesis by linarith
qed

lemma fade_ratio_gap:
  assumes "0 \<le> j" and "j < F" and "F < 2 ^ 23"
  shows "f32 (i2f j / i2f F) + 1 / 2 ^ 24 < f32 (i2f (j + 1) / i2f F)"
    and "0 \<le> f32 (i2f j / i2f F)" and "f32 (i2f (j + 1) / i2f F) \<le> 1"
proof -
  define x :: rat where "x = of_int j / of_int F"
  define y :: rat where "y = of_int (j + 1) / of_int F"
  have Fpos: "(0::rat) < of_int F" using assms by simp
  have ex: "i2f j = of_int j" "i2f (j + 1) = of_int (j + 1)" "i2f F = of_int F"
    using assms by (intro i2f_exact; simp)+
  define d :: rat where "d = 1 / of_int F"
  have "(of_int F :: rat) < of_int (2 ^ 23)"
    using assms(3) by (simp only: of_int_less_iff)
  then have gap: "1 / 8388608 < d"
    using Fpos by (simp add: d_def field_simps)
  have x0: "0 \<le> x" using assms by (simp add: x_def)
  have "(of_int (j + 1) :: rat) \<le> of_int F"
    using assms(2) by (simp only: of_int_le_iff)
  then have y1: "y \<le> 1"
    using Fpos by (simp add: y_def field_simps del: of_int_add)
  have step: "y = x + d"
    by (simp add: x_def y_def d_def add_divide_distrib)
  have xy: "x \<le> 1" "0 \<le> y" using x0 y1 step gap by linarith+
  have "f32 x \<le> x + 1 / 33554432" "y - 1 / 33554432 \<le> f32 y"
    using x0 y1 xy by (simp_all add: f32_unit_bounds)
  then have "f32 x + 1 / 16777216 < f32 y"
    using gap step by linarith
  then have "f32 x + 1 / 2 ^ 24 < f32 y" by simp
  then show "f32 (i2f j / i2f F) + 1 / 2 ^ 24 < f32 (i2f (j + 1) / i2f F)"
    by (simp only: ex x_def y_def)
  show "0 \<le> f32 (i2f j / i2f F)"
    using f32_unit(1) [OF x0 xy(1)] by (simp only: ex x_def)
  show "f32 (i2f (j + 1) / i2f F) \<le> 1"
    using f32_unit(2) [OF xy(2) y1] by (simp only: ex y_def)
qed

lemma fade_weight_strict:
  assumes "1 \<le> j" and "j < F" and "F < 2 ^ 23"
  shows "fade_weight (j + 1) F < fade_weight j F"
proof -
  have "0 \<le> j" using assms(1) by simp
  note g = fade_ratio_gap [OF this assms(2,3)]
  have "(1 - f32 (i2f (j + 1) / i2f F)) + 1 / 2 ^ 24 < 1 - f32 (i2f j / i2f F)"
    using g(1) by simp
  moreover have "0 \<le> 1 - f32 (i2f (j + 1) / i2f F)" "1 - f32 (i2f j / i2f F) \<le> 1"
    using g(2,3) by simp_all
  ultimately have "f32 (1 - f32 (i2f (j + 1) / i2f F)) < f32 (1 - f32 (i2f j / i2f F))"
    by (intro f32_strict)
  then show ?thesis by (simp only: fade_weight_def fsub_def fdiv_def)
qed

lemma fade_weight_first:
  assumes "1 \<le> F" and "F < 2 ^ 23"
  shows "fade_weight 1 F < 1"
proof -
  have zero: "i2f 0 = 0" using i2f_exact [of 0] by simp
  have g: "f32 (i2f 0 / i2f F) + 1 / 2 ^ 24 < f32 (i2f (0 + 1) / i2f F)"
      "f32 (i2f (0 + 1) / i2f F) \<le> 1"
    using fade_ratio_gap [of 0 F] assms by simp_all
  then have "1 / 2 ^ 24 < f32 (i2f 1 / i2f F)"
    by (simp add: zero f32_zero)
  then have "(1 - f32 (i2f 1 / i2f F)) + 1 / 2 ^ 24 < 1" by simp
  moreover have "0 \<le> 1 - f32 (i2f 1 / i2f F)" using g(2) by simp
  ultimately have "f32 (1 - f32 (i2f 1 / i2f F)) < f32 1"
    by (intro f32_strict) simp_all
  then show ?thesis by (simp add: fade_weight_def fsub_def fdiv_def f32_one)
qed


text \<open>
  What \<open>GetAudio\<close> does when the window ends exactly at the end of the active clip, the
  one crossing window whose reads stay inside the clip, with a fade length \<open>F\<close> between 0
  and \<open>n\<close>: the first \<open>n - F\<close> entries are mixed unfaded, the last \<open>F\<close> are crossfaded
  with the weights \<open>fade_weight j F\<close> for \<open>j = 1, \<dots>, F\<close>, and the pending clip becomes
  the active one while staying pending.  Every weight lies between 0 and 1 and the last one
  is 0; for \<open>F\<close> below \<open>2 ^ 23\<close> the first one is below 1 and the weights decrease strictly.
\<close>

theorem GetAudio_at_clip_end:
  assumes "m_pPendingTrack t = Some k" and "map_of (m_mapClips t) k = Some c"
    and "0 \<le> pos" and "pos < 2 ^ 31" and "n < 2 ^ 31"
    and "0 < getSampleCount c"
    and "pos mod getSampleCount c + n = getSampleCount c"
    and "0 \<le> m_nFadeSamples t" and "m_nFadeSamples t \<le> n"
    and "n \<le> int (length mix)"
    and "\<forall>i<nat (n - m_nFadeSamples t). fits (mix ! i) (samples c ! (nat (pos mod getSampleCount c) + i))"
    and "next_sample t = Inr nextSample"
  shows "GetAudio t (Some mix) n pos =
      Inr (True, t\<lparr> m_pPendingTrack := m_pPendingClip t \<rparr>,
        Some (rendered_wrap mix (samples c) (nat (pos mod getSampleCount c)) n (m_nFadeSamples t) nextSample))
    \<and> length (rendered_wrap mix (samples c) (nat (pos mod getSampleCount c)) n (m_nFadeSamples t) nextSample) =
        length mix
    \<and> (\<forall>x. x < nat (n - m_nFadeSamples t) \<longrightarrow>
          rendered_wrap mix (samples c) (nat (pos mod getSampleCount c)) n (m_nFadeSamples t) nextSample ! x =
          mixed (mix ! x) (samples c ! (nat (pos mod getSampleCount c) + x)))
    \<and> (\<forall>x. nat (n - m_nFadeSamples t) \<le> x \<and> x < nat n \<longrightarrow>
          rendered_wrap mix (samples c) (nat (pos mod getSampleCount c)) n (m_nFadeSamples t) nextSample ! x =
          mix ! x + faded (m_nFadeSamples t) (1 + int (x - nat (n - m_nFadeSamples t)))
            (samples c ! (nat (pos mod getSampleCount c) + x)) nextSample)
    \<and> (\<forall>j. 1 \<le> j \<and> j \<le> m_nFadeSamples t \<longrightarrow>
          0 \<le> fade_weight j (m_nFadeSamples t) \<and> fade_weight j (m_nFadeSamples t) \<le> 1)
    \<and> (1 \<le> m_nFadeSamples t \<longrightarrow> fade_weight (m_nFadeSamples t) (m_nFadeSamples t) = 0)
    \<and> (m_nFadeSamples t < 2 ^ 23 \<longrightarrow>
          (1 \<le> m_nFadeSamples t \<longrightarrow> fade_weight 1 (m_nFadeSamples t) < 1)
          \<and> (\<forall>j. 1 \<le> j \<and> j < m_nFadeSamples t \<longrightarrow>
                fade_weight (j + 1) (m_nFadeSamples t) < fade_weight j (m_nFadeSamples t)))"
proof -
  have "GetAudio t (Some mix) n pos = GetAudio_active t mix n pos"
    using assms(1) by (rule GetAudio_with_active)
  also have "\<dots> = Inr (True, t\<lparr> m_pPendingTrack := m_pPendingClip t \<rparr>,
        Some (rendered_wrap mix (samples c) (nat (pos mod getSampleCount c)) n (m_nFadeSamples t) nextSample))"
    using assms by (rule GetAudio_active_boundary)
  finally have run: "GetAudio t (Some mix) n pos =
      Inr (True, t\<lparr> m_pPendingTrack := m_pPendingClip t \<rparr>,
        Some (rendered_wrap mix (samples c) (nat (pos mod getSampleCount c)) n (m_nFadeSamples t) nextSample))" .
  have room: "nat n \<le> length mix" using assms(10) by simp
  have shape: "length (rendered_wrap mix (samples c) (nat (pos mod getSampleCount c)) n (m_nFadeSamples t) nextSample) =
        length mix"
    "\<forall>x. x < nat (n - m_nFadeSamples t) \<longrightarrow>
          rendered_wrap mix (samples c) (nat (pos mod getSampleCount c)) n (m_nFadeSamples t) nextSample ! x =
          mixed (mix ! x) (samples c ! (nat (pos mod getSampleCount c) + x))"
    "\<forall>x. nat (n - m_nFadeSamples t) \<le> x \<and> x < nat n \<longrightarrow>
          rendered_wrap mix (samples c) (nat (pos mod getSampleCount c)) n (m_nFadeSamples t) nextSample ! x =
          mix ! x + faded (m_nFadeSamples t) (1 + int (x - nat (n - m_nFadeSamples t)))
            (samples c ! (nat (pos mod getSampleCount c) + x)) nextSample"
    using room assms(8) by (auto simp: rendered_wrap_def)
  show ?thesis
    using run shape fade_weight_unit fade_weight_last fade_weight_first fade_weight_strict
    by (intro conjI allI impI) auto
qed

theorem GetAudio_at_clip_end_witness:
  "GetAudio playing_400 (Some [0, 0, 0, 0]) 4 0 = Inr (True, playing_400, Some [50, - 100, 126, 100])
   \<and> fade_weight 1 2 = 1 / 2 \<and> fade_weight 2 2 = 0"
proof -
  have a: "m_pPendingTrack playing_400 = Some ''a''"
    and b: "map_of (m_mapClips playing_400) ''a'' = Some clip_400"
    and f: "m_nFadeSamples playing_400 = 2"
    and p: "playing_400\<lparr> m_pPendingTrack := m_pPendingClip playing_400 \<rparr> = playing_400"
    by (simp_all add: playing_400_def)
  have l: "getSampleCount clip_400 = 4"
    by (simp add: getSampleCount_def clip_400_def)
  have nx: "next_sample playing_400 = Inr 100"
    by code_simp
  have "fits 0 100" "fits 0 (- 201)" by code_simp+
  then have ft: "\<forall>i<nat (4 - m_nFadeSamples playing_400).
      fits ([0, 0, 0, 0] ! i) (samples clip_400 ! (nat (0 mod getSampleCount clip_400) + i))"
    by (simp add: f l clip_400_def less_Suc_eq numeral_2_eq_2)
  have r: "rendered_wrap [0, 0, 0, 0] (samples clip_400) 0 4 2 100 = [50, - 100, 126, 100]"
    "fade_weight 1 2 = 1 / 2"
    by code_simp+
  have "GetAudio playing_400 (Some [0, 0, 0, 0]) 4 0 = Inr (True, playing_400, Some [50, - 100, 126, 100])
      \<and> fade_weight 2 2 = 0"
    using GetAudio_at_clip_end [OF a b _ _ _ _ _ _ _ _ ft nx] by (simp add: l f p r)
  then show ?thesis by (simp add: r)
qed

section \<open>The flag returned by \<open>UpdatePendingClips\<close>\<close>

lemma UpdatePendingClips_fold:
  "m_mapTracks (foldl (\<lambda>l clip. case find_track (m_mapTracks l) clip of None \<Rightarrow> l
       | Some name \<Rightarrow> l\<lparr> m_mapPendingTracks := map_assign name clip (m_mapPendingTracks l),
                         m_bNeedsAudio := False \<rparr>) ll clips) = m_mapTracks ll
   \<and> m_bNeedsAudio (foldl (\<lambda>l clip. case find_track (m_mapTracks l) clip of None \<Rightarrow> l
       | Some name \<Rightarrow> l\<lparr> m_mapPendingTracks := map_assign name clip (m_mapPendingTracks l),
                         m_bNeedsAudio := False \<rparr>) ll clips) =
     (m_bNeedsAudio ll \<and> (\<forall>clip \<in> set clips. find_track (m_mapTracks ll) clip = None))"
proof (induction clips arbitrary: ll)
  case Nil
  then show ?case by simp
next
  case (Cons clip clips)
  show ?case
    by (cases "find_track (m_mapTracks ll) clip") (auto simp: Cons.IH)
qed

text \<open>
  \<open>UpdatePendingClips\<close> returns true exactly when \<open>m_bNeedsAudio\<close> was already false or
  some requested clip is found in a track.
\<close>

theorem UpdatePendingClips_flag:
  "fst (UpdatePendingClips ll clips) =
     (\<not> m_bNeedsAudio ll \<or> (\<exists>clip \<in> set clips. find_track (m_mapTracks ll) clip \<noteq> None))"
  using UpdatePendingClips_fold [of ll clips] by (auto simp: UpdatePendingClips_def Let_def)

theorem UpdatePendingClips_flag_witness:
  "fst (UpdatePendingClips launcher_demo [''zzz'']) = False
   \<and> fst (UpdatePendingClips launcher_demo [''zzz'', ''a'']) = True
   \<and> fst (UpdatePendingClips (launcher_demo\<lparr> m_bNeedsAudio := False \<rparr>) []) = True"
proof -
  have "m_bNeedsAudio launcher_demo" "find_track (m_mapTracks launcher_demo) ''zzz'' = None"
    "find_track (m_mapTracks launcher_demo) ''a'' = Some ''drums''"
    by code_simp+
  then show ?thesis
    using UpdatePendingClips_flag [of launcher_demo "[''zzz'']"]
      UpdatePendingClips_flag [of launcher_demo "[''zzz'', ''a'']"]
      UpdatePendingClips_flag [of "launcher_demo\<lparr> m_bNeedsAudio := False \<rparr>" "[]"]
    by simp
qed

section \<open>Silence\<close>

text \<open>
  Without a mix buffer, or without an active and a pending clip, \<open>GetAudio\<close> returns false
  and changes neither the track nor the buffer.
\<close>

theorem GetAudio_silent:
  "GetAudio t None n pos = Inr (False, t, None)
   \<and> (m_pPendingTrack t = None \<and> m_pPendingClip t = None \<longrightarrow>
        GetAudio t (Some mix) n pos = Inr (False, t, Some mix))"
  by (simp add: GetAudio_def)

theorem GetAudio_silent_witness:
  "GetAudio Track_default None 2 0 = Inr (False, Track_default, None)
   \<and> GetAudio Track_default (Some [5, 6]) 2 0 = Inr (False, Track_default, Some [5, 6])"
  using GetAudio_silent [of Track_default 2 0 "[5, 6]"] by (simp add: Track_default_def)

end
